theory Spec2Isabelle
  imports Complex_Main "HOL-Library.Word" "HOL-Library.Multiset"
begin

section \<open>Data model\<close>

text \<open>
  Go's \<open>int64\<close> is a 64-bit word; \<open>+\<close> wraps around as Go's does, and every
  comparison of the source is a signed one, written here on \<open>sint\<close>.

  \<open>time.Time\<close> is modelled by the instant it denotes; \<open>Before\<close> is the strict
  order of instants.

  Go's \<open>float64\<close> is not modelled. The type of decimal amounts is the type
  parameter \<open>'f\<close>, and the two conversions of the precision module, the clock read by
  \<open>NewBidder\<close> and the library routine \<open>sort.Slice\<close> are the fields of a
  \<open>runtime\<close> that every function using them takes as its first argument. What is
  proved for an arbitrary runtime holds for whatever the floating-point unit computes.
\<close>

type_synonym int64 = "64 word"
type_synonym time = int

definition Before :: "time \<Rightarrow> time \<Rightarrow> bool" where
  "Before t u = (t < u)"

record 'f Bidder =
  ID :: string
  Name :: string
  StartingBid :: 'f
  MaxBid :: 'f
  AutoIncrement :: 'f
  CurrentBid :: 'f
  EntryTime :: time
  IsActive :: bool
  startingBidCents :: int64
  maxBidCents :: int64
  autoIncrementCents :: int64
  currentBidCents :: int64

record 'f runtime =
  DollarsToCents :: "'f \<Rightarrow> int64"
  CentsToDollars :: "int64 \<Rightarrow> 'f"
  time_Now :: time
  sort_Slice :: "('f Bidder \<Rightarrow> 'f Bidder \<Rightarrow> bool) \<Rightarrow> 'f Bidder list \<Rightarrow> 'f Bidder list"

section \<open>Bidder entity (internal/models/bidder.go)\<close>

definition NewBidder :: "'f runtime \<Rightarrow> string \<Rightarrow> string \<Rightarrow> 'f \<Rightarrow> 'f \<Rightarrow> 'f \<Rightarrow> 'f Bidder" where
  "NewBidder rt ident name startingBid maxBid autoIncrement =
     \<lparr> ID = ident, Name = name,
       StartingBid = startingBid, MaxBid = maxBid, AutoIncrement = autoIncrement,
       CurrentBid = startingBid,
       EntryTime = time_Now rt,
       IsActive = True,
       startingBidCents = DollarsToCents rt startingBid,
       maxBidCents = DollarsToCents rt maxBid,
       autoIncrementCents = DollarsToCents rt autoIncrement,
       currentBidCents = DollarsToCents rt startingBid \<rparr>"

definition CanIncrement :: "'f Bidder \<Rightarrow> bool" where
  "CanIncrement b =
     (IsActive b \<and> sint (currentBidCents b + autoIncrementCents b) \<le> sint (maxBidCents b))"

text \<open>\<open>Increment\<close> mutates its receiver and returns a flag: the model returns both.\<close>

definition Increment :: "'f runtime \<Rightarrow> 'f Bidder \<Rightarrow> bool \<times> 'f Bidder" where
  "Increment rt b =
     (if \<not> CanIncrement b then (False, b)
      else
        let b1 = b\<lparr>currentBidCents := currentBidCents b + autoIncrementCents b\<rparr>;
            b2 = (if sint (maxBidCents b1) \<le> sint (currentBidCents b1)
                  then b1\<lparr>currentBidCents := maxBidCents b1, IsActive := False\<rparr>
                  else b1)
        in (True, b2\<lparr>CurrentBid := CentsToDollars rt (currentBidCents b2)\<rparr>))"

definition GetCurrentBidCents :: "'f Bidder \<Rightarrow> int64" where
  "GetCurrentBidCents b = currentBidCents b"

definition GetMaxBidCents :: "'f Bidder \<Rightarrow> int64" where
  "GetMaxBidCents b = maxBidCents b"

definition GetAutoIncrementCents :: "'f Bidder \<Rightarrow> int64" where
  "GetAutoIncrementCents b = autoIncrementCents b"

definition GetStartingBidCents :: "'f Bidder \<Rightarrow> int64" where
  "GetStartingBidCents b = startingBidCents b"

definition SyncFloatFields :: "'f runtime \<Rightarrow> 'f Bidder \<Rightarrow> 'f Bidder" where
  "SyncFloatFields rt b =
     b\<lparr> CurrentBid := CentsToDollars rt (currentBidCents b),
        StartingBid := CentsToDollars rt (startingBidCents b),
        MaxBid := CentsToDollars rt (maxBidCents b),
        AutoIncrement := CentsToDollars rt (autoIncrementCents b) \<rparr>"

text \<open>A sequence of \<open>n\<close> calls of \<open>Increment\<close> on the same bidder.\<close>

fun Increment_calls :: "'f runtime \<Rightarrow> nat \<Rightarrow> 'f Bidder \<Rightarrow> 'f Bidder" where
  "Increment_calls rt 0 b = b"
| "Increment_calls rt (Suc n) b = Increment_calls rt n (snd (Increment rt b))"


section \<open>Result entity (internal/models/result.go)\<close>

text \<open>
  \<open>Winner\<close> is a pointer to an element of the slice that becomes \<open>AllBidders\<close>:
  it is modelled by the index of that element, \<open>None\<close> for \<open>nil\<close>.
\<close>

record 'f BidResult =
  Winner :: "nat option"
  WinningBid :: 'f
  TotalBidders :: int
  BiddingRounds :: int
  AllBidders :: "'f Bidder list"
  winningBidCents :: int64

definition NewBidResult ::
  "'f runtime \<Rightarrow> nat option \<Rightarrow> 'f \<Rightarrow> int \<Rightarrow> int \<Rightarrow> 'f Bidder list \<Rightarrow> 'f BidResult" where
  "NewBidResult rt winner winningBid totalBidders biddingRounds allBidders =
     \<lparr> Winner = winner, WinningBid = winningBid,
       TotalBidders = totalBidders, BiddingRounds = biddingRounds,
       AllBidders = map (SyncFloatFields rt) allBidders,
       winningBidCents = DollarsToCents rt winningBid \<rparr>"

definition NewBidResultFromCents ::
  "'f runtime \<Rightarrow> nat option \<Rightarrow> int64 \<Rightarrow> int \<Rightarrow> int \<Rightarrow> 'f Bidder list \<Rightarrow> 'f BidResult" where
  "NewBidResultFromCents rt winner cents totalBidders biddingRounds allBidders =
     \<lparr> Winner = winner, WinningBid = CentsToDollars rt cents,
       TotalBidders = totalBidders, BiddingRounds = biddingRounds,
       AllBidders = map (SyncFloatFields rt) allBidders,
       winningBidCents = cents \<rparr>"

definition GetWinningBidCents :: "'f BidResult \<Rightarrow> int64" where
  "GetWinningBidCents br = winningBidCents br"

section \<open>Bidding engine (internal/engine.go)\<close>

text \<open>
  The error values of the source carry a message and diagnostic context; the model
  keeps the kind of the error, its message and, for a wrapping error, its cause.
\<close>

datatype error =
    InputError string
  | SystemError string
  | TimeoutError string
  | ProcessingError string error

record BiddingEngine =
  maxRounds :: int

definition NewBiddingEngine :: BiddingEngine where
  "NewBiddingEngine = \<lparr> maxRounds = 1000 \<rparr>"

subsection \<open>findHighestBidCents\<close>

text \<open>The loop over \<open>bidders[1:]\<close>, with the running maximum as its state.\<close>

fun findHighestBidCents_loop :: "int64 \<Rightarrow> 'f Bidder list \<Rightarrow> error + int64" where
  "findHighestBidCents_loop highestCents [] = Inr highestCents"
| "findHighestBidCents_loop highestCents (bidder # rest) =
     (if sint (GetCurrentBidCents bidder) < 0
      then Inl (SystemError ''bidder has negative current bid'')
      else findHighestBidCents_loop
             (if sint highestCents < sint (GetCurrentBidCents bidder)
              then GetCurrentBidCents bidder else highestCents) rest)"

definition findHighestBidCents :: "'f Bidder list \<Rightarrow> error + int64" where
  "findHighestBidCents bidders =
     (case bidders of
        [] \<Rightarrow> Inr 0
      | first # rest \<Rightarrow>
          if sint (GetCurrentBidCents first) < 0
          then Inl (SystemError ''bidder has negative current bid'')
          else (case findHighestBidCents_loop (GetCurrentBidCents first) rest of
                  Inl e \<Rightarrow> Inl e
                | Inr highestCents \<Rightarrow>
                    if sint highestCents < 0
                    then Inl (SystemError ''calculated highest bid is negative'')
                    else Inr highestCents))"

subsection \<open>IncrementBids\<close>

text \<open>
  The loop \<open>for i := range bidders\<close> visits the elements in order and mutates the
  one it visits; \<open>highestBidCents\<close> was computed before the loop and is not updated by
  it. The model returns the flag \<open>anyIncremented\<close> and the slice as the loop leaves it.
\<close>

fun IncrementBids_loop ::
  "'f runtime \<Rightarrow> int64 \<Rightarrow> 'f Bidder list \<Rightarrow> bool \<Rightarrow> error + (bool \<times> 'f Bidder list)" where
  "IncrementBids_loop rt highestBidCents [] anyIncremented = Inr (anyIncremented, [])"
| "IncrementBids_loop rt highestBidCents (bidder # rest) anyIncremented =
     (if sint highestBidCents \<le> sint (GetCurrentBidCents bidder) \<or> \<not> CanIncrement bidder
      then (case IncrementBids_loop rt highestBidCents rest anyIncremented of
              Inl e \<Rightarrow> Inl e
            | Inr (a, rest') \<Rightarrow> Inr (a, bidder # rest'))
      else (case Increment rt bidder of
              (True, bidder') \<Rightarrow>
                (case IncrementBids_loop rt highestBidCents rest True of
                   Inl e \<Rightarrow> Inl e
                 | Inr (a, rest') \<Rightarrow> Inr (a, bidder' # rest'))
            | (False, bidder') \<Rightarrow>
                Inl (SystemError ''bidder increment failed despite CanIncrement() returning true'')))"

definition IncrementBids :: "'f runtime \<Rightarrow> 'f Bidder list \<Rightarrow> error + (bool \<times> 'f Bidder list)" where
  "IncrementBids rt bidders =
     (if length bidders \<le> 1 then Inr (False, bidders)
      else (case findHighestBidCents bidders of
              Inl err \<Rightarrow> Inl (ProcessingError ''failed to find highest bid'' err)
            | Inr highestBidCents \<Rightarrow> IncrementBids_loop rt highestBidCents bidders False))"

subsection \<open>CalculateMinimumWinningBidCents\<close>

text \<open>
  The second loop of the function: the highest \<open>maxBidCents\<close> among the bidders whose
  \<open>ID\<close> differs from the winner's, starting from 0. (The source also records the ID of
  that bidder, for the context of an error message only.)
\<close>

definition secondHighestCents :: "'f Bidder list \<Rightarrow> string \<Rightarrow> int64" where
  "secondHighestCents bidders winnerID =
     fold (\<lambda>bidder acc.
             if ID bidder = winnerID then acc
             else if sint acc < sint (GetMaxBidCents bidder) then GetMaxBidCents bidder
             else acc)
          bidders 0"

definition CalculateMinimumWinningBidCents ::
  "'f Bidder list \<Rightarrow> 'f Bidder option \<Rightarrow> error + int64" where
  "CalculateMinimumWinningBidCents bidders winner =
     (case winner of
        None \<Rightarrow> Inl (InputError ''winner cannot be nil'')
      | Some w \<Rightarrow>
          if length bidders = 0 then Inl (InputError ''bidders slice cannot be empty'')
          else if \<not> list_ex (\<lambda>bidder. ID bidder = ID w) bidders
          then Inl (InputError ''winner not found in bidders slice'')
          else
            let second = secondHighestCents bidders (ID w) in
            if second = 0 then Inr (GetStartingBidCents w)
            else
              let m0 = second + GetAutoIncrementCents w;
                  m1 = (if sint (GetMaxBidCents w) < sint m0 then GetMaxBidCents w else m0);
                  m2 = (if sint m1 < sint (GetStartingBidCents w)
                        then GetStartingBidCents w else m1)
              in if sint m2 < 0
                 then Inl (SystemError ''calculated minimum winning bid is negative'')
                 else Inr m2)"

subsection \<open>findWinner\<close>

text \<open>
  The loop \<open>for i := 1; i < len(bidders); i++\<close>; \<open>winner\<close> is the index the pointer
  of the source points to.
\<close>

function findWinner_loop :: "'f Bidder list \<Rightarrow> nat \<Rightarrow> nat \<Rightarrow> error + nat" where
  "findWinner_loop bidders i winner =
     (if i < length bidders then
        (if sint (GetCurrentBidCents (bidders ! i)) < 0
         then Inl (SystemError ''bidder has negative current bid'')
         else if sint (GetCurrentBidCents (bidders ! winner)) < sint (GetCurrentBidCents (bidders ! i))
         then findWinner_loop bidders (i + 1) i
         else if GetCurrentBidCents (bidders ! i) = GetCurrentBidCents (bidders ! winner)
                 \<and> Before (EntryTime (bidders ! i)) (EntryTime (bidders ! winner))
         then findWinner_loop bidders (i + 1) i
         else findWinner_loop bidders (i + 1) winner)
      else Inr winner)"
  by pat_completeness auto
termination
  by (relation "measure (\<lambda>(bidders, i, winner). length bidders - i)") auto

declare findWinner_loop.simps [simp del]

definition findWinner :: "'f Bidder list \<Rightarrow> error + nat option" where
  "findWinner bidders =
     (if length bidders = 0 then Inr None
      else (case findWinner_loop bidders 1 0 of
              Inl e \<Rightarrow> Inl e
            | Inr winner \<Rightarrow>
                if sint (GetCurrentBidCents (bidders ! winner)) < 0
                then Inl (SystemError ''winner has negative current bid'')
                else Inr (Some winner)))"

subsection \<open>ProcessBids\<close>

text \<open>The body of the first loop: the bidder is rebuilt and keeps its entry time.\<close>

definition reinitialize :: "'f runtime \<Rightarrow> 'f Bidder \<Rightarrow> 'f Bidder" where
  "reinitialize rt bidder =
     (NewBidder rt (ID bidder) (Name bidder) (StartingBid bidder) (MaxBid bidder)
        (AutoIncrement bidder)) \<lparr> EntryTime := EntryTime bidder \<rparr>"

text \<open>The \<open>less\<close> function handed to \<open>sort.Slice\<close>.\<close>

definition entry_less :: "'f Bidder \<Rightarrow> 'f Bidder \<Rightarrow> bool" where
  "entry_less x y = Before (EntryTime x) (EntryTime y)"

text \<open>
  The round loop \<open>for rounds < be.maxRounds\<close>. It returns the round counter and the
  working slice on \<open>break\<close> and on leaving the loop, or the error it wraps.
\<close>

function round_loop ::
  "'f runtime \<Rightarrow> BiddingEngine \<Rightarrow> int \<Rightarrow> 'f Bidder list \<Rightarrow> error + (int \<times> 'f Bidder list)" where
  "round_loop rt be rounds workingBidders =
     (if rounds < maxRounds be then
        (case IncrementBids rt workingBidders of
           Inl err \<Rightarrow> Inl (ProcessingError ''failed to increment bids'' err)
         | Inr (incremented, workingBidders') \<Rightarrow>
             if \<not> incremented then Inr (rounds, workingBidders')
             else round_loop rt be (rounds + 1) workingBidders')
      else Inr (rounds, workingBidders))"
  by pat_completeness auto
termination
  by (relation "measure (\<lambda>(rt, be, rounds, ws). nat (maxRounds be - rounds))") auto

declare round_loop.simps [simp del]

definition ProcessBids ::
  "('f::zero) runtime \<Rightarrow> BiddingEngine \<Rightarrow> 'f Bidder list \<Rightarrow> error + 'f BidResult" where
  "ProcessBids rt be bidders =
     (if length bidders = 0 then Inr (NewBidResult rt None 0 0 0 bidders)
      else
        let workingBidders = map (reinitialize rt) bidders;
            workingBidders = sort_Slice rt entry_less workingBidders
        in (case round_loop rt be 0 workingBidders of
              Inl e \<Rightarrow> Inl e
            | Inr (rounds, workingBidders) \<Rightarrow>
                if maxRounds be \<le> rounds
                then Inl (TimeoutError ''bidding process exceeded maximum rounds'')
                else (case findWinner workingBidders of
                        Inl err \<Rightarrow> Inl (ProcessingError ''failed to determine winner'' err)
                      | Inr None \<Rightarrow>
                          Inr (NewBidResult rt None 0 (int (length bidders)) rounds workingBidders)
                      | Inr (Some winner) \<Rightarrow>
                          (case CalculateMinimumWinningBidCents workingBidders
                                  (Some (workingBidders ! winner)) of
                             Inl err \<Rightarrow>
                               Inl (ProcessingError ''failed to calculate minimum winning bid'' err)
                           | Inr cents \<Rightarrow>
                               Inr (NewBidResultFromCents rt (Some winner) cents
                                      (int (length bidders)) rounds workingBidders)))))"

section \<open>The engine on a store of slices\<close>

text \<open>
  In the source \<open>ProcessBids\<close> receives a slice, a reference to an array that the
  caller keeps, and the functions above mutate the array behind the slice they are
  given. To state what happens to the caller's array the arrays live in a store, a
  slice is the address of its array, and every function that writes takes the store
  and returns it. A pointer to a bidder is the address of the array and an index.
  \<open>make\<close> followed by \<open>copy\<close> appends a new array with the same elements to the store.
  The functions that only read (\<open>findHighestBidCents\<close>, \<open>findWinner\<close>,
  \<open>CalculateMinimumWinningBidCents\<close>) are applied to the contents of the slice.
\<close>

type_synonym 'f store = "'f Bidder list list"
type_synonym slice = nat

record 'f BidResult_st =
  Winner_st :: "(slice \<times> nat) option"
  WinningBid_st :: 'f
  TotalBidders_st :: int
  BiddingRounds_st :: int
  AllBidders_st :: slice
  winningBidCents_st :: int64

definition NewBidResult_st ::
  "'f runtime \<Rightarrow> (slice \<times> nat) option \<Rightarrow> 'f \<Rightarrow> int \<Rightarrow> int \<Rightarrow> slice \<Rightarrow> 'f store
     \<Rightarrow> 'f store \<times> 'f BidResult_st" where
  "NewBidResult_st rt winner winningBid totalBidders biddingRounds allBidders h =
     (h[allBidders := map (SyncFloatFields rt) (h ! allBidders)],
      \<lparr> Winner_st = winner, WinningBid_st = winningBid,
        TotalBidders_st = totalBidders, BiddingRounds_st = biddingRounds,
        AllBidders_st = allBidders,
        winningBidCents_st = DollarsToCents rt winningBid \<rparr>)"

definition NewBidResultFromCents_st ::
  "'f runtime \<Rightarrow> (slice \<times> nat) option \<Rightarrow> int64 \<Rightarrow> int \<Rightarrow> int \<Rightarrow> slice \<Rightarrow> 'f store
     \<Rightarrow> 'f store \<times> 'f BidResult_st" where
  "NewBidResultFromCents_st rt winner cents totalBidders biddingRounds allBidders h =
     (h[allBidders := map (SyncFloatFields rt) (h ! allBidders)],
      \<lparr> Winner_st = winner, WinningBid_st = CentsToDollars rt cents,
        TotalBidders_st = totalBidders, BiddingRounds_st = biddingRounds,
        AllBidders_st = allBidders,
        winningBidCents_st = cents \<rparr>)"

text \<open>The loop of \<open>IncrementBids\<close>: \<open>bidder := &bidders[i]\<close> is element \<open>i\<close> of the array.\<close>

function IncrementBids_loop_st ::
  "'f runtime \<Rightarrow> int64 \<Rightarrow> slice \<Rightarrow> nat \<Rightarrow> bool \<Rightarrow> 'f store \<Rightarrow> 'f store \<times> (error + bool)" where
  "IncrementBids_loop_st rt highestBidCents bidders i anyIncremented h =
     (if i < length (h ! bidders) then
        (if sint highestBidCents \<le> sint (GetCurrentBidCents (h ! bidders ! i))
            \<or> \<not> CanIncrement (h ! bidders ! i)
         then IncrementBids_loop_st rt highestBidCents bidders (i + 1) anyIncremented h
         else if fst (Increment rt (h ! bidders ! i))
         then IncrementBids_loop_st rt highestBidCents bidders (i + 1) True
                (h[bidders := (h ! bidders)[i := snd (Increment rt (h ! bidders ! i))]])
         else (h[bidders := (h ! bidders)[i := snd (Increment rt (h ! bidders ! i))]],
               Inl (SystemError ''bidder increment failed despite CanIncrement() returning true'')))
      else (h, Inr anyIncremented))"
  by pat_completeness auto
termination
proof (relation "measure (\<lambda>(rt, hi, bidders, i, a, h). length (h ! bidders) - i)")
  fix rt :: "'f runtime" and highestBidCents :: int64 and bidders i :: nat
    and anyIncremented :: bool and h :: "'f store"
  assume "i < length (h ! bidders)"
  then show "((rt, highestBidCents, bidders, i + 1, anyIncremented, h),
              (rt, highestBidCents, bidders, i, anyIncremented, h))
            \<in> measure (\<lambda>(rt, hi, bidders, i, a, h). length (h ! bidders) - i)"
    by auto
  have "length (h[bidders := (h ! bidders)[i := snd (Increment rt (h ! bidders ! i))]] ! bidders)
          = length (h ! bidders)"
    by (cases "bidders < length h") (simp_all add: list_update_beyond)
  with \<open>i < length (h ! bidders)\<close>
  show "((rt, highestBidCents, bidders, i + 1, True,
           h[bidders := (h ! bidders)[i := snd (Increment rt (h ! bidders ! i))]]),
          (rt, highestBidCents, bidders, i, anyIncremented, h))
        \<in> measure (\<lambda>(rt, hi, bidders, i, a, h). length (h ! bidders) - i)"
    by auto
qed simp

declare IncrementBids_loop_st.simps [simp del]

definition IncrementBids_st :: "'f runtime \<Rightarrow> slice \<Rightarrow> 'f store \<Rightarrow> 'f store \<times> (error + bool)" where
  "IncrementBids_st rt bidders h =
     (if length (h ! bidders) \<le> 1 then (h, Inr False)
      else (case findHighestBidCents (h ! bidders) of
              Inl err \<Rightarrow> (h, Inl (ProcessingError ''failed to find highest bid'' err))
            | Inr highestBidCents \<Rightarrow> IncrementBids_loop_st rt highestBidCents bidders 0 False h))"

function round_loop_st ::
  "'f runtime \<Rightarrow> BiddingEngine \<Rightarrow> slice \<Rightarrow> int \<Rightarrow> 'f store \<Rightarrow> 'f store \<times> (error + int)" where
  "round_loop_st rt be workingBidders rounds h =
     (if rounds < maxRounds be then
        (case snd (IncrementBids_st rt workingBidders h) of
           Inl err \<Rightarrow> (fst (IncrementBids_st rt workingBidders h),
                       Inl (ProcessingError ''failed to increment bids'' err))
         | Inr incremented \<Rightarrow>
             if \<not> incremented then (fst (IncrementBids_st rt workingBidders h), Inr rounds)
             else round_loop_st rt be workingBidders (rounds + 1)
                    (fst (IncrementBids_st rt workingBidders h)))
      else (h, Inr rounds))"
  by pat_completeness auto
termination
  by (relation "measure (\<lambda>(rt, be, ws, rounds, h). nat (maxRounds be - rounds))") auto

declare round_loop_st.simps [simp del]

definition ProcessBids_st ::
  "('f::zero) runtime \<Rightarrow> BiddingEngine \<Rightarrow> slice \<Rightarrow> 'f store
     \<Rightarrow> 'f store \<times> (error + 'f BidResult_st)" where
  "ProcessBids_st rt be bidders h =
     (if length (h ! bidders) = 0
      then (case NewBidResult_st rt None 0 0 0 bidders h of (h', r) \<Rightarrow> (h', Inr r))
      else
        let n = length (h ! bidders);
            workingBidders = length h;
            h = h @ [h ! bidders];
            h = h[workingBidders := map (reinitialize rt) (h ! workingBidders)];
            h = h[workingBidders := sort_Slice rt entry_less (h ! workingBidders)]
        in (case round_loop_st rt be workingBidders 0 h of
              (h, Inl e) \<Rightarrow> (h, Inl e)
            | (h, Inr rounds) \<Rightarrow>
                if maxRounds be \<le> rounds
                then (h, Inl (TimeoutError ''bidding process exceeded maximum rounds''))
                else (case findWinner (h ! workingBidders) of
                        Inl err \<Rightarrow> (h, Inl (ProcessingError ''failed to determine winner'' err))
                      | Inr None \<Rightarrow>
                          (case NewBidResult_st rt None 0 (int n) rounds workingBidders h of
                             (h', r) \<Rightarrow> (h', Inr r))
                      | Inr (Some winner) \<Rightarrow>
                          (case CalculateMinimumWinningBidCents (h ! workingBidders)
                                  (Some (h ! workingBidders ! winner)) of
                             Inl err \<Rightarrow>
                               (h, Inl (ProcessingError ''failed to calculate minimum winning bid'' err))
                           | Inr cents \<Rightarrow>
                               (case NewBidResultFromCents_st rt (Some (workingBidders, winner))
                                       cents (int n) rounds workingBidders h of
                                  (h', r) \<Rightarrow> (h', Inr r))))))"

text \<open>
  The result with its references followed: the final bidder list is read from the
  store, and of the pointer to the winner the index remains.
\<close>

definition deref :: "'f store \<Rightarrow> 'f BidResult_st \<Rightarrow> 'f BidResult" where
  "deref h r =
     \<lparr> Winner = map_option snd (Winner_st r), WinningBid = WinningBid_st r,
       TotalBidders = TotalBidders_st r, BiddingRounds = BiddingRounds_st r,
       AllBidders = h ! AllBidders_st r,
       winningBidCents = winningBidCents_st r \<rparr>"

section \<open>A runtime for evaluation\<close>

text \<open>
  To run the model on concrete bidders the amounts are exact rationals: \<open>math.Round\<close>
  rounds half away from zero, the conversion to \<open>int64\<close> is \<open>word_of_int\<close>, and the
  sort is a stable insertion sort. The inputs evaluated below are whole amounts on
  which the \<open>float64\<close> product with 100 is exact.
\<close>

definition math_Round :: "rat \<Rightarrow> int" where
  "math_Round x = (if x < 0 then - \<lfloor>- x + 1 / 2\<rfloor> else \<lfloor>x + 1 / 2\<rfloor>)"

fun insert_less :: "('a \<Rightarrow> 'a \<Rightarrow> bool) \<Rightarrow> 'a \<Rightarrow> 'a list \<Rightarrow> 'a list" where
  "insert_less lt x [] = [x]"
| "insert_less lt x (y # ys) =
     (if lt y x then y # insert_less lt x ys else x # y # ys)"

definition insertion_sort :: "('a \<Rightarrow> 'a \<Rightarrow> bool) \<Rightarrow> 'a list \<Rightarrow> 'a list" where
  "insertion_sort lt xs = foldr (insert_less lt) xs []"

definition exact_runtime :: "rat runtime" where
  "exact_runtime =
     \<lparr> DollarsToCents = (\<lambda>dollars. word_of_int (math_Round (dollars * 100))),
       CentsToDollars = (\<lambda>cents. of_int (sint cents) / 100),
       time_Now = 0,
       sort_Slice = insertion_sort \<rparr>"

text \<open>A bidder as a caller builds it: \<open>NewBidder\<close>, then the entry time is set.\<close>

definition bidder_at :: "string \<Rightarrow> string \<Rightarrow> rat \<Rightarrow> rat \<Rightarrow> rat \<Rightarrow> time \<Rightarrow> rat Bidder" where
  "bidder_at ident name startingBid maxBid autoIncrement t =
     (NewBidder exact_runtime ident name startingBid maxBid autoIncrement) \<lparr> EntryTime := t \<rparr>"


section \<open>The conversions between dollars and cents (internal/models)\<close>

text \<open>
  \<open>DollarsToCents\<close> and \<open>CentsToDollars\<close> compute on \<open>float64\<close>. A \<open>float64\<close> value is
  modelled by the rational it denotes, and every \<open>float64\<close> operation by the exact
  operation followed by \<open>float64\<close>, the rounding of IEEE 754 binary64: to the nearest
  value with a significand of 53 bits, ties to the even significand, with the spacing
  of the subnormal numbers below \<open>2 powi - 1022\<close>. Overflow to an infinity (magnitudes
  from \<open>2 powi 1024\<close> on) is not modelled; the statements below bound the amounts far
  below it.

  \<open>ilog2 n\<close> is the position of the leading bit of \<open>n \<ge> 1\<close>, and \<open>exponent64 r\<close> the
  binary exponent of \<open>r \<noteq> 0\<close>, the \<open>e\<close> with \<open>2 powi e \<le> \<bar>r\<bar> < 2 powi (e + 1)\<close>.
\<close>

definition round_ties_even :: "rat \<Rightarrow> int" where
  "round_ties_even y =
     (let n = \<lfloor>y\<rfloor>; d = y - of_int n
      in if d < 1 / 2 then n else if 1 / 2 < d then n + 1 else if even n then n else n + 1)"

function ilog2 :: "int \<Rightarrow> int" where
  "ilog2 n = (if n < 2 then 0 else 1 + ilog2 (n div 2))"
  by pat_completeness auto
termination by (relation "measure nat") auto

declare ilog2.simps [simp del]

definition exponent64 :: "rat \<Rightarrow> int" where
  "exponent64 r =
     (if 1 \<le> \<bar>r\<bar> then ilog2 \<lfloor>\<bar>r\<bar>\<rfloor> else - 1 - ilog2 (\<lceil>1 / \<bar>r\<bar>\<rceil> - 1))"

definition float64 :: "rat \<Rightarrow> rat" where
  "float64 r =
     (if r = 0 then 0
      else let ulp = power_int 2 (max (exponent64 r) (- 1022) - 52)
           in of_int (round_ties_even (r / ulp)) * ulp)"

text \<open>
  \<open>DollarsToCents\<close> is \<open>int64(math.Round(dollars * 100))\<close>: the product is a \<open>float64\<close>
  multiplication, \<open>math.Round\<close> is exact on a \<open>float64\<close> and the conversion to \<open>int64\<close>
  is exact on a whole number within the range of \<open>int64\<close> (outside of it Go leaves the
  result to the implementation; here it wraps). \<open>CentsToDollars\<close> is
  \<open>float64(cents) / 100.0\<close>: the conversion rounds, and so does the division.
\<close>

definition models_DollarsToCents :: "rat \<Rightarrow> int64" where
  "models_DollarsToCents dollars = word_of_int (math_Round (float64 (dollars * 100)))"

definition models_CentsToDollars :: "int64 \<Rightarrow> rat" where
  "models_CentsToDollars cents = float64 (float64 (of_int (sint cents)) / 100)"

text \<open>The runtime of the engine with these conversions.\<close>

definition float64_runtime :: "rat runtime" where
  "float64_runtime =
     exact_runtime \<lparr> DollarsToCents := models_DollarsToCents,
                     CentsToDollars := models_CentsToDollars \<rparr>"

text \<open>
  The conversion to minor units as the specification words it: multiply by 100 and
  round to the nearest integer, ties away from zero.
\<close>

definition spec_toMinorUnits :: "rat \<Rightarrow> int" where
  "spec_toMinorUnits amount =
     (if amount < 0 then - \<lfloor>\<bar>amount * 100\<bar> + 1 / 2\<rfloor> else \<lfloor>\<bar>amount * 100\<bar> + 1 / 2\<rfloor>)"

text \<open>The \<open>float64\<close> value of the literal \<open>1.115\<close>.\<close>

definition dollars_1_115 :: rat where
  "dollars_1_115 = float64 (223 / 200)"

section \<open>Predicates used in the statements and proofs\<close>

text \<open>
  The state of a bidder whose bid lies between its starting bid and its maximum, whose
  increment is positive, and whose maximum plus increment still fits into \<open>int64\<close>.
\<close>


definition bid_invariant :: "'f Bidder \<Rightarrow> bool" where
  "bid_invariant b =
     (sint (startingBidCents b) \<le> sint (currentBidCents b)
      \<and> sint (currentBidCents b) \<le> sint (maxBidCents b)
      \<and> 0 < sint (autoIncrementCents b)
      \<and> sint (maxBidCents b) + sint (autoIncrementCents b) < 2 ^ 63)"

text \<open>
  A bidder is losing in a pass of \<open>IncrementBids\<close> when its bid is strictly below the
  highest bid \<open>h\<close> found before the pass and it is able to increment; \<open>pass_step\<close> is
  what the pass does to one bidder.
\<close>

definition losing :: "int64 \<Rightarrow> 'f Bidder \<Rightarrow> bool" where
  "losing h b = (sint (currentBidCents b) < sint h \<and> CanIncrement b)"

definition pass_step :: "'f runtime \<Rightarrow> int64 \<Rightarrow> 'f Bidder \<Rightarrow> 'f Bidder" where
  "pass_step rt h b = (if losing h b then snd (Increment rt b) else b)"

text \<open>
  What the documentation of \<open>sort.Slice\<close> promises for the \<open>less\<close> function of
  \<open>ProcessBids\<close>: the result is a rearrangement of the slice in which no element is
  followed by one that is less. It does not promise stability.
\<close>

definition sort_Slice_contract :: "'f runtime \<Rightarrow> bool" where
  "sort_Slice_contract rt =
     (\<forall>xs. mset (sort_Slice rt entry_less xs) = mset xs
           \<and> sorted_wrt (\<lambda>x y. \<not> entry_less y x) (sort_Slice rt entry_less xs))"

text \<open>
  A bidder of the input is valid when the cents derived from its amounts are positive,
  the starting bid does not exceed the maximum, and maximum plus increment fits into
  \<open>int64\<close>.
\<close>

definition valid_input :: "'f runtime \<Rightarrow> 'f Bidder \<Rightarrow> bool" where
  "valid_input rt b =
     (0 < sint (DollarsToCents rt (StartingBid b))
      \<and> sint (DollarsToCents rt (StartingBid b)) \<le> sint (DollarsToCents rt (MaxBid b))
      \<and> 0 < sint (DollarsToCents rt (AutoIncrement b))
      \<and> sint (DollarsToCents rt (MaxBid b)) + sint (DollarsToCents rt (AutoIncrement b)) < 2 ^ 63)"

text \<open>What the engine never changes in a bidder once the working copy is set up.\<close>

definition same_parameters :: "'f Bidder \<Rightarrow> 'f Bidder \<Rightarrow> bool" where
  "same_parameters b b' =
     (ID b' = ID b \<and> Name b' = Name b \<and> EntryTime b' = EntryTime b
      \<and> startingBidCents b' = startingBidCents b \<and> maxBidCents b' = maxBidCents b
      \<and> autoIncrementCents b' = autoIncrementCents b)"

text \<open>A working bidder in good state: the invariant, and a positive starting bid.\<close>

definition working_ok :: "'f Bidder \<Rightarrow> bool" where
  "working_ok b = (bid_invariant b \<and> 0 < sint (startingBidCents b))"

text \<open>The number of full increments that fit between the current bid and the maximum.\<close>

definition steps_available :: "'f Bidder \<Rightarrow> nat" where
  "steps_available b =
     nat ((sint (maxBidCents b) - sint (currentBidCents b)) div sint (autoIncrementCents b))"

text \<open>
  The bound on the number of rounds as the specification words it: the largest
  \<open>ceil((maxBid - startingBid) / autoIncrement)\<close> of a bidder.
\<close>

definition spec_round_bound :: "'f Bidder list \<Rightarrow> int" where
  "spec_round_bound bs =
     fold max
       (map (\<lambda>b. \<lceil>(of_int (sint (maxBidCents b) - sint (startingBidCents b)) :: rat)
                    / of_int (sint (autoIncrementCents b))\<rceil>) bs) 0"

text \<open>
  The payment as the specification words it. \<open>others bs w\<close> are the bidders other than
  the one at index \<open>w\<close>.
\<close>

definition others :: "'a list \<Rightarrow> nat \<Rightarrow> 'a list" where
  "others bs w = take w bs @ drop (Suc w) bs"

definition spec_winning_bid :: "'f Bidder list \<Rightarrow> nat \<Rightarrow> int" where
  "spec_winning_bid bs w =
     (if others bs w = [] then sint (startingBidCents (bs ! w))
      else max (sint (startingBidCents (bs ! w)))
             (min (sint (maxBidCents (bs ! w)))
                (Max (set (map (\<lambda>b. sint (maxBidCents b)) (others bs w)))
                   + sint (autoIncrementCents (bs ! w)))))"

text \<open>Bidders used to evaluate the model.\<close>

definition two_bidders :: "rat Bidder list" where
  "two_bidders = [bidder_at ''a'' ''Alice'' 10 13 2 0, bidder_at ''b'' ''Bob'' 9 13 2 1]"

definition tied_bidders :: "rat Bidder list" where
  "tied_bidders = [bidder_at ''1'' ''Alice'' 100 150 10 0, bidder_at ''2'' ''Bob'' 100 150 10 1]"

definition second_price_bidders :: "rat Bidder list" where
  "second_price_bidders =
     [bidder_at ''1'' ''Alice'' 100 300 25 0, bidder_at ''2'' ''Bob'' 110 250 20 1]"

text \<open>
  Alice with a maximum and an increment of \<open>9 * 10 ^ 16\<close> dollars, Bob with a maximum of
  \<open>10 ^ 16\<close> dollars; the products with 100 are exact in \<open>float64\<close> and fit \<open>int64\<close>.
\<close>

definition wide_bidders :: "rat Bidder list" where
  "wide_bidders =
     [bidder_at ''a'' ''Alice'' 1 90000000000000000 90000000000000000 0,
      bidder_at ''b'' ''Bob'' 1 10000000000000000 1 1]"

definition slow_bidders :: "rat Bidder list" where
  "slow_bidders = [bidder_at ''a'' ''Alice'' 1 2000 1 0, bidder_at ''b'' ''Bob'' 3000 3000 1 1]"

text \<open>
  Thirteen bidders: twelve with the same amounts and the same entry time, and one that
  entered earlier with a lower maximum. Then a runtime whose sort meets the contract of
  \<open>sort.Slice\<close> but leaves equal elements in the reverse of their input order.
\<close>

definition thirteen_bidders :: "rat Bidder list" where
  "thirteen_bidders =
     [bidder_at ''b0'' ''Bidder 0'' 100 150 10 1,
      bidder_at ''b1'' ''Bidder 1'' 100 150 10 1,
      bidder_at ''b2'' ''Bidder 2'' 100 150 10 1,
      bidder_at ''b3'' ''Bidder 3'' 100 150 10 1,
      bidder_at ''b4'' ''Bidder 4'' 100 150 10 1,
      bidder_at ''b5'' ''Bidder 5'' 100 150 10 1,
      bidder_at ''b6'' ''Bidder 6'' 100 150 10 1,
      bidder_at ''b7'' ''Bidder 7'' 100 150 10 1,
      bidder_at ''b8'' ''Bidder 8'' 100 150 10 1,
      bidder_at ''b9'' ''Bidder 9'' 100 150 10 1,
      bidder_at ''b10'' ''Bidder 10'' 100 150 10 1,
      bidder_at ''b11'' ''Bidder 11'' 100 150 10 1,
      bidder_at ''b12'' ''Bidder 12'' 50 60 10 0]"

definition tie_reversing_runtime :: "rat runtime" where
  "tie_reversing_runtime =
     exact_runtime \<lparr> sort_Slice := (\<lambda>lt xs. insertion_sort lt (rev xs)) \<rparr>"

section \<open>Signed 64-bit arithmetic\<close>

lemma sint_bounds64:
  fixes a :: int64
  shows "- (2 ^ 63) \<le> sint a" and "sint a < 2 ^ 63"
  using sint_ge [of a] sint_lt [of a] by simp_all

lemma sint_add64:
  fixes a b :: int64
  assumes "- (2 ^ 63) \<le> sint a + sint b" and "sint a + sint b < 2 ^ 63"
  shows "sint (a + b) = sint a + sint b"
  using assms by (simp add: sint_word_ariths signed_take_bit_int_eq_self)

text \<open>An addition is exact or off by one full turn of the 64-bit counter.\<close>

lemma sint_add64_cases:
  fixes a b :: int64
  shows "sint (a + b) = sint a + sint b \<or> sint (a + b) = sint a + sint b - 2 ^ 64
     \<or> sint (a + b) = sint a + sint b + 2 ^ 64"
proof -
  define k where "k = sint a + sint b"
  have kb: "- (2 ^ 64) \<le> k" "k < 2 ^ 64"
    using sint_bounds64 [of a] sint_bounds64 [of b] by (simp_all add: k_def)
  have eq: "sint (a + b) = (k + 2 ^ 63) mod 2 ^ 64 - 2 ^ 63"
    by (simp add: sint_word_ariths k_def signed_take_bit_eq_take_bit_shift take_bit_eq_mod)
  consider "k < - (2 ^ 63)" | "- (2 ^ 63) \<le> k \<and> k < 2 ^ 63" | "2 ^ 63 \<le> k" by linarith
  then have "(k + 2 ^ 63) mod 2 ^ 64 - 2 ^ 63 = k \<or> (k + 2 ^ 63) mod 2 ^ 64 - 2 ^ 63 = k - 2 ^ 64
      \<or> (k + 2 ^ 63) mod 2 ^ 64 - 2 ^ 63 = k + 2 ^ 64"
  proof cases
    case 1
    then have "(k + 2 ^ 63) mod 2 ^ 64 = k + 2 ^ 63 + 2 ^ 64"
      using kb by (intro int_mod_pos_eq [where q = "- 1"]) simp_all
    then show ?thesis by simp
  next
    case 2
    then have "(k + 2 ^ 63) mod 2 ^ 64 = k + 2 ^ 63"
      by (intro mod_pos_pos_trivial) simp_all
    then show ?thesis by simp
  next
    case 3
    then have "(k + 2 ^ 63) mod 2 ^ 64 = k + 2 ^ 63 - 2 ^ 64"
      using kb by (intro int_mod_pos_eq [where q = 1]) simp_all
    then show ?thesis by simp
  qed
  then show ?thesis unfolding eq k_def .
qed

section \<open>The bidder entity\<close>

lemma Increment_fst: "fst (Increment rt b) = CanIncrement b"
  by (simp add: Increment_def Let_def)

lemma Increment_unable: "\<not> CanIncrement b \<Longrightarrow> Increment rt b = (False, b)"
  by (simp add: Increment_def)

lemma Increment_frame:
  "ID (snd (Increment rt b)) = ID b"
  "Name (snd (Increment rt b)) = Name b"
  "EntryTime (snd (Increment rt b)) = EntryTime b"
  "startingBidCents (snd (Increment rt b)) = startingBidCents b"
  "maxBidCents (snd (Increment rt b)) = maxBidCents b"
  "autoIncrementCents (snd (Increment rt b)) = autoIncrementCents b"
  by (simp_all add: Increment_def Let_def)

text \<open>In 64-bit arithmetic a successful call adds exactly the increment.\<close>

lemma Increment_adds:
  assumes "CanIncrement b"
  shows "currentBidCents (snd (Increment rt b)) = currentBidCents b + autoIncrementCents b"
proof -
  have "sint (currentBidCents b + autoIncrementCents b) \<le> sint (maxBidCents b)"
    using assms by (simp add: CanIncrement_def)
  then have "sint (maxBidCents b) \<le> sint (currentBidCents b + autoIncrementCents b)
      \<Longrightarrow> maxBidCents b = currentBidCents b + autoIncrementCents b"
    by (intro signed_word_eqI) simp
  then show ?thesis using assms by (auto simp add: Increment_def Let_def)
qed

lemma Increment_active:
  "currentBidCents (snd (Increment rt b)) \<noteq> currentBidCents b \<Longrightarrow> IsActive b"
  by (cases "CanIncrement b") (auto simp add: Increment_unable CanIncrement_def)

lemma sint_cur_add:
  assumes "bid_invariant b"
  shows "sint (currentBidCents b + autoIncrementCents b)
           = sint (currentBidCents b) + sint (autoIncrementCents b)"
  using assms sint_bounds64 [of "currentBidCents b"]
  by (intro sint_add64) (simp_all add: bid_invariant_def)

lemma Increment_invariant:
  assumes "bid_invariant b"
  shows "bid_invariant (snd (Increment rt b))"
    and "sint (currentBidCents b) \<le> sint (currentBidCents (snd (Increment rt b)))"
proof -
  show "bid_invariant (snd (Increment rt b))"
  proof (cases "CanIncrement b")
    case True
    then have "sint (currentBidCents b) + sint (autoIncrementCents b) \<le> sint (maxBidCents b)"
      using sint_cur_add [OF assms] by (simp add: CanIncrement_def)
    then show ?thesis
      using assms True sint_cur_add [OF assms]
      by (simp add: bid_invariant_def Increment_adds Increment_frame)
  next
    case False
    then show ?thesis using assms by (simp add: Increment_unable)
  qed
  show "sint (currentBidCents b) \<le> sint (currentBidCents (snd (Increment rt b)))"
  proof (cases "CanIncrement b")
    case True
    then show ?thesis
      using assms sint_cur_add [OF assms] by (simp add: Increment_adds bid_invariant_def)
  next
    case False
    then show ?thesis by (simp add: Increment_unable)
  qed
qed

lemma Increment_calls_frame:
  "startingBidCents (Increment_calls rt n b) = startingBidCents b
   \<and> maxBidCents (Increment_calls rt n b) = maxBidCents b
   \<and> autoIncrementCents (Increment_calls rt n b) = autoIncrementCents b
   \<and> ID (Increment_calls rt n b) = ID b"
  by (induction n arbitrary: b) (simp_all add: Increment_frame)

lemma Increment_calls_invariant:
  "bid_invariant b \<Longrightarrow> bid_invariant (Increment_calls rt n b)"
  by (induction n arbitrary: b) (simp_all add: Increment_invariant)

lemma Increment_calls_add: "Increment_calls rt (m + k) b = Increment_calls rt k (Increment_calls rt m b)"
  by (induction m arbitrary: b) simp_all

lemma Increment_calls_mono:
  "bid_invariant b \<Longrightarrow> sint (currentBidCents b) \<le> sint (currentBidCents (Increment_calls rt n b))"
proof (induction n arbitrary: b)
  case 0
  then show ?case by simp
next
  case (Suc n)
  have "sint (currentBidCents b) \<le> sint (currentBidCents (snd (Increment rt b)))"
    using Suc.prems by (rule Increment_invariant)
  also have "\<dots> \<le> sint (currentBidCents (Increment_calls rt n (snd (Increment rt b))))"
    using Suc.prems by (intro Suc.IH Increment_invariant)
  finally show ?case by simp
qed

text \<open>
  Claim C3, as amended. For a bidder built by \<open>NewBidder\<close> with
  \<open>startingBid \<le> maxBid\<close>, \<open>autoIncrement > 0\<close> and
  \<open>maxBid + autoIncrement\<close> within \<open>int64\<close> (all in cents), after any \<open>m\<close> calls
  of \<open>Increment\<close> the current bid lies between the starting bid and the maximum, any
  further \<open>n\<close> calls do not lower it, and a call changes it only if the bidder was
  active before the call.
\<close>

theorem Increment_keeps_bid_in_range:
  assumes "b0 = NewBidder rt ident name startingBid maxBid autoIncrement"
    and "sint (startingBidCents b0) \<le> sint (maxBidCents b0)"
    and "0 < sint (autoIncrementCents b0)"
    and "sint (maxBidCents b0) + sint (autoIncrementCents b0) < 2 ^ 63"
    and "b = Increment_calls rt m b0"
    and "b' = Increment_calls rt n b"
  shows "sint (startingBidCents b0) \<le> sint (currentBidCents b)
       \<and> sint (currentBidCents b) \<le> sint (maxBidCents b0)
       \<and> sint (currentBidCents b) \<le> sint (currentBidCents b')
       \<and> (currentBidCents (snd (Increment rt b)) \<noteq> currentBidCents b \<longrightarrow> IsActive b)"
proof -
  have "bid_invariant b0"
    using assms(1-4) by (simp add: bid_invariant_def NewBidder_def)
  then have inv: "bid_invariant b"
    unfolding assms(5) by (rule Increment_calls_invariant)
  have fr: "startingBidCents b = startingBidCents b0" "maxBidCents b = maxBidCents b0"
    unfolding assms(5) by (simp_all add: Increment_calls_frame)
  show ?thesis
    using inv fr Increment_calls_mono [OF inv, of rt n] Increment_active [of rt b]
    by (simp add: bid_invariant_def assms(6))
qed


text \<open>The theorem at a bidder with 10.00, 14.00 and 2.00, one call and then one more.\<close>

theorem Increment_keeps_bid_in_range_witness:
  "sint (startingBidCents (NewBidder exact_runtime ''a'' ''A'' 10 14 2))
      \<le> sint (maxBidCents (NewBidder exact_runtime ''a'' ''A'' 10 14 2))
   \<and> 0 < sint (autoIncrementCents (NewBidder exact_runtime ''a'' ''A'' 10 14 2))
   \<and> sint (maxBidCents (NewBidder exact_runtime ''a'' ''A'' 10 14 2))
       + sint (autoIncrementCents (NewBidder exact_runtime ''a'' ''A'' 10 14 2)) < 2 ^ 63
   \<and> sint (currentBidCents (Increment_calls exact_runtime 1 (NewBidder exact_runtime ''a'' ''A'' 10 14 2)))
       \<le> sint (currentBidCents (Increment_calls exact_runtime 1
             (Increment_calls exact_runtime 1 (NewBidder exact_runtime ''a'' ''A'' 10 14 2))))"
proof -
  define b0 where "b0 = NewBidder exact_runtime ''a'' ''A'' 10 14 2"
  have h1: "sint (startingBidCents b0) \<le> sint (maxBidCents b0)"
    unfolding b0_def by code_simp
  have h2: "0 < sint (autoIncrementCents b0)"
    unfolding b0_def by code_simp
  have h3: "sint (maxBidCents b0) + sint (autoIncrementCents b0) < 2 ^ 63"
    unfolding b0_def by code_simp
  show ?thesis
    using Increment_keeps_bid_in_range [OF b0_def h1 h2 h3 refl refl, of 1 1] h1 h2 h3
    unfolding b0_def by blast
qed

text \<open>
  Claim C3 as stated has no bound on the amounts. With starting bid, maximum and
  increment all 5e16 (5e18 cents each) the sum in \<open>CanIncrement\<close> wraps around to a
  negative number, the call succeeds and leaves the current bid below the starting bid.
\<close>

theorem Increment_overflow_counterexample:
  "sint (startingBidCents (NewBidder exact_runtime ''a'' ''A'' 50000000000000000 50000000000000000 50000000000000000))
     \<le> sint (maxBidCents (NewBidder exact_runtime ''a'' ''A'' 50000000000000000 50000000000000000 50000000000000000))
   \<and> 0 < sint (autoIncrementCents (NewBidder exact_runtime ''a'' ''A'' 50000000000000000 50000000000000000 50000000000000000))
   \<and> sint (currentBidCents (Increment_calls exact_runtime 1
        (NewBidder exact_runtime ''a'' ''A'' 50000000000000000 50000000000000000 50000000000000000)))
       < sint (startingBidCents (NewBidder exact_runtime ''a'' ''A'' 50000000000000000 50000000000000000 50000000000000000))"
  by code_simp

lemma Increment_below_max:
  assumes "sint (currentBidCents b) \<le> sint (maxBidCents b)"
  shows "sint (currentBidCents (snd (Increment rt b))) \<le> sint (maxBidCents b)"
proof (cases "CanIncrement b")
  case True
  then show ?thesis by (simp add: Increment_adds) (simp add: CanIncrement_def)
next
  case False
  then show ?thesis using assms by (simp add: Increment_unable)
qed

lemma Increment_calls_below_max:
  "sint (currentBidCents b) \<le> sint (maxBidCents b)
   \<Longrightarrow> sint (currentBidCents (Increment_calls rt n b)) \<le> sint (maxBidCents b)"
proof (induction n arbitrary: b)
  case 0
  then show ?case by simp
next
  case (Suc n)
  have "sint (currentBidCents (Increment_calls rt n (snd (Increment rt b))))
          \<le> sint (maxBidCents (snd (Increment rt b)))"
    using Suc.prems by (intro Suc.IH) (simp add: Increment_below_max Increment_frame)
  then show ?case by (simp add: Increment_frame)
qed

text \<open>When the clamp branch of \<open>Increment\<close> is taken the sum is the maximum itself.\<close>

lemma clamp_is_exact:
  assumes "CanIncrement b"
    and "sint (maxBidCents b) \<le> sint (currentBidCents b + autoIncrementCents b)"
    and "sint (currentBidCents b) \<le> sint (maxBidCents b)"
    and "0 < sint (autoIncrementCents b)"
  shows "currentBidCents b + autoIncrementCents b = maxBidCents b"
    and "sint (currentBidCents b + autoIncrementCents b)
           = sint (currentBidCents b) + sint (autoIncrementCents b)"
proof -
  have eq: "sint (currentBidCents b + autoIncrementCents b) = sint (maxBidCents b)"
    using assms(1,2) by (simp add: CanIncrement_def)
  then show "currentBidCents b + autoIncrementCents b = maxBidCents b"
    by (intro signed_word_eqI)
  show "sint (currentBidCents b + autoIncrementCents b)
           = sint (currentBidCents b) + sint (autoIncrementCents b)"
    using sint_add64_cases [of "currentBidCents b" "autoIncrementCents b"] eq assms(3,4)
      sint_bounds64 [of "currentBidCents b"] sint_bounds64 [of "autoIncrementCents b"]
      sint_bounds64 [of "maxBidCents b"]
    by auto
qed

text \<open>
  Claim C7, as amended. On every state reached from \<open>NewBidder\<close> with
  \<open>startingBid \<le> maxBid\<close> and \<open>autoIncrement > 0\<close>, a successful \<open>Increment\<close>
  adds exactly \<open>autoIncrement\<close> in \<open>int64\<close> arithmetic; the clamp branch is taken
  only when \<open>currentBid + autoIncrement\<close> is \<open>maxBid\<close> itself, and then the bid grows by
  the full increment as an integer too.
\<close>

theorem Increment_is_a_full_step:
  assumes "b0 = NewBidder rt ident name startingBid maxBid autoIncrement"
    and "sint (startingBidCents b0) \<le> sint (maxBidCents b0)"
    and "0 < sint (autoIncrementCents b0)"
    and "b = Increment_calls rt n b0"
    and "fst (Increment rt b)"
  shows "currentBidCents (snd (Increment rt b)) = currentBidCents b + autoIncrementCents b
       \<and> (sint (maxBidCents b) \<le> sint (currentBidCents b + autoIncrementCents b) \<longrightarrow>
            currentBidCents b + autoIncrementCents b = maxBidCents b
            \<and> sint (currentBidCents (snd (Increment rt b)))
                = sint (currentBidCents b) + sint (autoIncrementCents b))"
proof -
  have can: "CanIncrement b" using assms(5) by (simp add: Increment_fst)
  have "sint (currentBidCents b0) \<le> sint (maxBidCents b0)"
    using assms(1,2) by (simp add: NewBidder_def)
  then have le: "sint (currentBidCents b) \<le> sint (maxBidCents b)"
    unfolding assms(4) using Increment_calls_below_max [of b0 rt n]
    by (simp add: Increment_calls_frame)
  have pos: "0 < sint (autoIncrementCents b)"
    using assms(3) unfolding assms(4) by (simp add: Increment_calls_frame)
  show ?thesis
    using clamp_is_exact [OF can _ le pos] by (simp add: Increment_adds [OF can])
qed

text \<open>The theorem at 10.00, 14.00, 2.00 after one call: the second call reaches the maximum.\<close>

theorem Increment_is_a_full_step_witness:
  "sint (startingBidCents (NewBidder exact_runtime ''a'' ''A'' 10 14 2))
      \<le> sint (maxBidCents (NewBidder exact_runtime ''a'' ''A'' 10 14 2))
   \<and> 0 < sint (autoIncrementCents (NewBidder exact_runtime ''a'' ''A'' 10 14 2))
   \<and> fst (Increment exact_runtime (Increment_calls exact_runtime 1 (NewBidder exact_runtime ''a'' ''A'' 10 14 2)))
   \<and> sint (maxBidCents (Increment_calls exact_runtime 1 (NewBidder exact_runtime ''a'' ''A'' 10 14 2)))
       \<le> sint (currentBidCents (Increment_calls exact_runtime 1 (NewBidder exact_runtime ''a'' ''A'' 10 14 2))
               + autoIncrementCents (Increment_calls exact_runtime 1 (NewBidder exact_runtime ''a'' ''A'' 10 14 2)))
   \<and> sint (currentBidCents (snd (Increment exact_runtime
               (Increment_calls exact_runtime 1 (NewBidder exact_runtime ''a'' ''A'' 10 14 2)))))
       = sint (currentBidCents (Increment_calls exact_runtime 1 (NewBidder exact_runtime ''a'' ''A'' 10 14 2)))
         + sint (autoIncrementCents (Increment_calls exact_runtime 1 (NewBidder exact_runtime ''a'' ''A'' 10 14 2)))"
proof -
  define b0 where "b0 = NewBidder exact_runtime ''a'' ''A'' 10 14 2"
  define b where "b = Increment_calls exact_runtime 1 b0"
  have h1: "sint (startingBidCents b0) \<le> sint (maxBidCents b0)"
    unfolding b0_def by code_simp
  have h2: "0 < sint (autoIncrementCents b0)"
    unfolding b0_def by code_simp
  have h3: "fst (Increment exact_runtime b)"
    unfolding b_def b0_def by code_simp
  have h4: "sint (maxBidCents b) \<le> sint (currentBidCents b + autoIncrementCents b)"
    unfolding b_def b0_def by code_simp
  show ?thesis
    using Increment_is_a_full_step [OF b0_def h1 h2 b_def h3] h1 h2 h3 h4
    unfolding b_def b0_def by blast
qed

text \<open>
  Claim C7 as stated asks for a reachable state where a successful call, its clamp
  branch taken, raises the bid by less than \<open>autoIncrement\<close>. There is none:
  \<open>CanIncrement\<close> admits the call only if the sum does not exceed the maximum.
\<close>

theorem no_partial_increment:
  "\<not> (\<exists>(rt :: 'f runtime) ident name startingBid maxBid autoIncrement n.
        let b0 = NewBidder rt ident name startingBid maxBid autoIncrement;
            b = Increment_calls rt n b0
        in sint (startingBidCents b0) \<le> sint (maxBidCents b0)
           \<and> 0 < sint (autoIncrementCents b0)
           \<and> fst (Increment rt b)
           \<and> sint (maxBidCents b) \<le> sint (currentBidCents b + autoIncrementCents b)
           \<and> sint (currentBidCents (snd (Increment rt b))) - sint (currentBidCents b)
               < sint (autoIncrementCents b))"
proof
  assume "\<exists>(rt :: 'f runtime) ident name startingBid maxBid autoIncrement n.
        let b0 = NewBidder rt ident name startingBid maxBid autoIncrement;
            b = Increment_calls rt n b0
        in sint (startingBidCents b0) \<le> sint (maxBidCents b0)
           \<and> 0 < sint (autoIncrementCents b0)
           \<and> fst (Increment rt b)
           \<and> sint (maxBidCents b) \<le> sint (currentBidCents b + autoIncrementCents b)
           \<and> sint (currentBidCents (snd (Increment rt b))) - sint (currentBidCents b)
               < sint (autoIncrementCents b)"
  then obtain rt :: "'f runtime" and ident name startingBid maxBid autoIncrement n b0 b
    where b0: "b0 = NewBidder rt ident name startingBid maxBid autoIncrement"
      and b: "b = Increment_calls rt n b0"
      and h: "sint (startingBidCents b0) \<le> sint (maxBidCents b0)"
             "0 < sint (autoIncrementCents b0)"
             "fst (Increment rt b)"
             "sint (maxBidCents b) \<le> sint (currentBidCents b + autoIncrementCents b)"
      and less: "sint (currentBidCents (snd (Increment rt b))) - sint (currentBidCents b)
               < sint (autoIncrementCents b)"
    unfolding Let_def by blast
  have can: "CanIncrement b" using h(3) by (simp add: Increment_fst)
  have "sint (currentBidCents b0) \<le> sint (maxBidCents b0)"
    using b0 h(1) by (simp add: NewBidder_def)
  then have le: "sint (currentBidCents b) \<le> sint (maxBidCents b)"
    unfolding b using Increment_calls_below_max [of b0 rt n]
    by (simp add: Increment_calls_frame)
  have pos: "0 < sint (autoIncrementCents b)"
    using h(2) unfolding b by (simp add: Increment_calls_frame)
  have "sint (currentBidCents (snd (Increment rt b)))
          = sint (currentBidCents b) + sint (autoIncrementCents b)"
    using clamp_is_exact(2) [OF can h(4) le pos] by (simp add: Increment_adds [OF can])
  with less show False by simp
qed

section \<open>The empty auction\<close>

text \<open>
  Claim C8. For the empty bidder list \<open>ProcessBids\<close> returns no error but a result with
  no winner, winning bid 0, zero total bidders, zero rounds and an empty final bidder
  list. The field in cents holds what \<open>DollarsToCents\<close> makes of the amount 0.
\<close>

theorem ProcessBids_empty:
  "ProcessBids rt be [] =
     Inr \<lparr> Winner = None, WinningBid = 0, TotalBidders = 0, BiddingRounds = 0,
           AllBidders = [], winningBidCents = DollarsToCents rt 0 \<rparr>"
  by (simp add: ProcessBids_def NewBidResult_def)

section \<open>One pass of IncrementBids\<close>

lemma Increment_able: "CanIncrement b \<Longrightarrow> Increment rt b = (True, snd (Increment rt b))"
  by (simp add: Increment_def Let_def)

lemma IncrementBids_loop_eq:
  "IncrementBids_loop rt h bs any
     = Inr (any \<or> (\<exists>b\<in>set bs. losing h b), map (pass_step rt h) bs)"
proof (induction bs arbitrary: any)
  case Nil
  then show ?case by simp
next
  case (Cons b bs)
  show ?case
  proof (cases "losing h b")
    case True
    then have "CanIncrement b" "\<not> sint h \<le> sint (currentBidCents b)"
      by (simp_all add: losing_def)
    moreover obtain b' where eq: "Increment rt b = (True, b')"
      using Increment_able [of b rt] \<open>CanIncrement b\<close> by blast
    ultimately show ?thesis
      using True Cons.IH [of True]
      by (simp add: GetCurrentBidCents_def pass_step_def eq)
  next
    case False
    then have "sint h \<le> sint (currentBidCents b) \<or> \<not> CanIncrement b"
      by (auto simp add: losing_def)
    then show ?thesis
      using False Cons.IH [of any]
      by (simp add: GetCurrentBidCents_def pass_step_def)
  qed
qed

lemma findHighestBidCents_loop_Inr:
  assumes "findHighestBidCents_loop h bs = Inr H"
  shows "(H = h \<or> (\<exists>b\<in>set bs. currentBidCents b = H))
       \<and> sint h \<le> sint H
       \<and> (\<forall>b\<in>set bs. 0 \<le> sint (currentBidCents b) \<and> sint (currentBidCents b) \<le> sint H)"
  using assms
proof (induction bs arbitrary: h)
  case Nil
  then show ?case by simp
next
  case (Cons b bs)
  from Cons.prems have nn: "0 \<le> sint (currentBidCents b)"
    by (simp add: GetCurrentBidCents_def split: if_splits)
  define h' where "h' = (if sint h < sint (currentBidCents b) then currentBidCents b else h)"
  from Cons.prems nn have "findHighestBidCents_loop h' bs = Inr H"
    by (simp add: GetCurrentBidCents_def h'_def split: if_splits)
  from Cons.IH [OF this] show ?case
    using nn by (auto simp add: h'_def split: if_splits)
qed

lemma findHighestBidCents_Inr:
  assumes "findHighestBidCents bs = Inr H" and "bs \<noteq> []"
  shows "(\<exists>b\<in>set bs. currentBidCents b = H)
       \<and> (\<forall>b\<in>set bs. 0 \<le> sint (currentBidCents b) \<and> sint (currentBidCents b) \<le> sint H)"
proof -
  obtain b rest where bs: "bs = b # rest" using assms(2) by (cases bs) auto
  from assms(1) have nn: "0 \<le> sint (currentBidCents b)"
    by (simp add: findHighestBidCents_def bs GetCurrentBidCents_def split: if_splits)
  from assms(1) nn have "findHighestBidCents_loop (currentBidCents b) rest = Inr H"
    by (simp add: findHighestBidCents_def bs GetCurrentBidCents_def split: if_splits sum.splits)
  from findHighestBidCents_loop_Inr [OF this] show ?thesis
    using nn by (auto simp add: bs)
qed

text \<open>
  Claim C2. In a pass of \<open>IncrementBids\<close> over at least two bidders, where
  \<open>findHighestBidCents\<close> returned \<open>h\<close> at the start: \<open>h\<close> is the highest current bid;
  the pass applies \<open>Increment\<close> once to exactly the bidders with \<open>currentBid < h\<close> and
  \<open>CanIncrement\<close>, and that call succeeds; every other bidder, each bidder at \<open>h\<close>
  among them, is left as it was; all bidders are compared with the same \<open>h\<close>; and the
  flag returned says whether some bidder was incremented.
\<close>

theorem IncrementBids_pass:
  assumes "2 \<le> length bidders" and "findHighestBidCents bidders = Inr h"
  shows "IncrementBids rt bidders
           = Inr (\<exists>b\<in>set bidders. sint (currentBidCents b) < sint h \<and> CanIncrement b,
                  map (\<lambda>b. if sint (currentBidCents b) < sint h \<and> CanIncrement b
                           then snd (Increment rt b) else b) bidders)
       \<and> (\<exists>b\<in>set bidders. currentBidCents b = h)
       \<and> (\<forall>b\<in>set bidders. sint (currentBidCents b) \<le> sint h)
       \<and> (\<forall>b\<in>set bidders. sint (currentBidCents b) < sint h \<and> CanIncrement b
              \<longrightarrow> fst (Increment rt b))"
proof -
  have ne: "bidders \<noteq> []" using assms(1) by auto
  have "IncrementBids rt bidders = IncrementBids_loop rt h bidders False"
    using assms by (simp add: IncrementBids_def)
  also have "\<dots> = Inr (\<exists>b\<in>set bidders. losing h b, map (pass_step rt h) bidders)"
    by (simp add: IncrementBids_loop_eq)
  finally have "IncrementBids rt bidders
           = Inr (\<exists>b\<in>set bidders. sint (currentBidCents b) < sint h \<and> CanIncrement b,
                  map (\<lambda>b. if sint (currentBidCents b) < sint h \<and> CanIncrement b
                           then snd (Increment rt b) else b) bidders)"
    by (simp add: losing_def pass_step_def cong: map_cong)
  then show ?thesis
    using findHighestBidCents_Inr [OF assms(2) ne]
    by (simp add: Increment_def Let_def)
qed

text \<open>
  The theorem at Alice (10.00) and Bob (9.00): \<open>h\<close> is 1000 cents and only Bob moves.
\<close>

theorem IncrementBids_pass_witness:
  "2 \<le> length two_bidders \<and> findHighestBidCents two_bidders = Inr 1000
   \<and> IncrementBids exact_runtime two_bidders
       = Inr (\<exists>b\<in>set two_bidders. sint (currentBidCents b) < sint (1000 :: int64) \<and> CanIncrement b,
              map (\<lambda>b. if sint (currentBidCents b) < sint (1000 :: int64) \<and> CanIncrement b
                       then snd (Increment exact_runtime b) else b) two_bidders)
   \<and> map currentBidCents (map (\<lambda>b. if sint (currentBidCents b) < sint (1000 :: int64) \<and> CanIncrement b
                       then snd (Increment exact_runtime b) else b) two_bidders) = [1000, 1100]"
proof -
  have h1: "2 \<le> length two_bidders" by code_simp
  have h2: "findHighestBidCents two_bidders = Inr 1000" by code_simp
  have h3: "map currentBidCents (map (\<lambda>b. if sint (currentBidCents b) < sint (1000 :: int64) \<and> CanIncrement b
                       then snd (Increment exact_runtime b) else b) two_bidders) = [1000, 1100]"
    by code_simp
  show ?thesis
    using IncrementBids_pass [OF h1 h2, of exact_runtime] h1 h2 h3 by blast
qed

section \<open>The working copy\<close>

subsection \<open>The sort of the evaluation runtime meets the contract\<close>

lemma mset_insert_less: "mset (insert_less lt x ys) = add_mset x (mset ys)"
  by (induction ys) simp_all

lemma mset_insertion_sort: "mset (insertion_sort lt xs) = mset xs"
  by (induction xs) (simp_all add: insertion_sort_def mset_insert_less)

lemma set_insert_less: "set (insert_less lt x ys) = insert x (set ys)"
  by (induction ys) auto

lemma sorted_insert_less:
  "sorted_wrt (\<lambda>x y. \<not> entry_less y x) ys
   \<Longrightarrow> sorted_wrt (\<lambda>x y. \<not> entry_less y x) (insert_less entry_less x ys)"
  by (induction ys) (auto simp add: set_insert_less entry_less_def Before_def)

lemma sorted_insertion_sort:
  "sorted_wrt (\<lambda>x y. \<not> entry_less y x) (insertion_sort entry_less xs)"
  by (induction xs) (simp_all add: insertion_sort_def sorted_insert_less)

lemma exact_runtime_contract: "sort_Slice_contract exact_runtime"
  by (simp add: sort_Slice_contract_def exact_runtime_def mset_insertion_sort
      sorted_insertion_sort)

subsection \<open>What a pass changes\<close>

lemma same_parameters_refl: "same_parameters b b"
  by (simp add: same_parameters_def)

lemma same_parameters_trans:
  "same_parameters a b \<Longrightarrow> same_parameters b c \<Longrightarrow> same_parameters a c"
  by (simp add: same_parameters_def)

lemma pass_step_parameters: "same_parameters b (pass_step rt h b)"
  by (simp add: same_parameters_def pass_step_def Increment_frame)

lemma IncrementBids_Inr:
  assumes "IncrementBids rt bs = Inr (a, bs')"
  shows "(length bs \<le> 1 \<and> \<not> a \<and> bs' = bs)
       \<or> (2 \<le> length bs \<and> (\<exists>h. findHighestBidCents bs = Inr h
               \<and> a = (\<exists>b\<in>set bs. losing h b) \<and> bs' = map (pass_step rt h) bs))"
proof (cases "length bs \<le> 1")
  case True
  then show ?thesis using assms by (simp add: IncrementBids_def)
next
  case False
  then obtain h where h: "findHighestBidCents bs = Inr h"
    using assms by (auto simp add: IncrementBids_def split: sum.splits)
  then have "IncrementBids_loop rt h bs False = Inr (a, bs') "
    using assms False by (simp add: IncrementBids_def)
  then show ?thesis using False h by (auto simp add: IncrementBids_loop_eq)
qed

lemma list_all2_map_self: "(\<And>x. x \<in> set xs \<Longrightarrow> P x (f x)) \<Longrightarrow> list_all2 P xs (map f xs)"
  by (induction xs) simp_all

lemma IncrementBids_frame:
  assumes "IncrementBids rt bs = Inr (a, bs')"
  shows "list_all2 same_parameters bs bs'"
  using IncrementBids_Inr [OF assms]
  by (auto simp add: list_all2_map_self pass_step_parameters
      intro: list_all2_refl same_parameters_refl)

lemma same_parameters_list_trans:
  "list_all2 same_parameters xs ys \<Longrightarrow> list_all2 same_parameters ys zs
   \<Longrightarrow> list_all2 same_parameters xs zs"
  using list_all2_trans [of same_parameters same_parameters same_parameters xs ys zs]
  by (blast intro: same_parameters_trans)

lemma round_loop_frame:
  "round_loop rt be r ws = Inr (r', ws') \<Longrightarrow> list_all2 same_parameters ws ws' \<and> r \<le> r'"
proof (induction rt be r ws rule: round_loop.induct)
  case (1 rt be rounds ws)
  show ?case
  proof (cases "rounds < maxRounds be")
    case False
    then have "ws' = ws" "r' = rounds"
      using "1.prems" by (subst (asm) round_loop.simps, simp)+
    then show ?thesis
      by (simp add: list_all2_refl same_parameters_refl)
  next
    case True
    then obtain a ws1 where inc: "IncrementBids rt ws = Inr (a, ws1)"
      using "1.prems" by (subst (asm) round_loop.simps) (auto split: sum.splits)
    show ?thesis
    proof (cases a)
      case False
      then have "ws' = ws1" "r' = rounds"
        using "1.prems" True inc by (subst (asm) round_loop.simps, simp)+
      then show ?thesis using IncrementBids_frame [OF inc] by simp
    next
      case a: True
      then have "round_loop rt be (rounds + 1) ws1 = Inr (r', ws')"
        using "1.prems" True inc by (subst (asm) round_loop.simps) simp
      from "1.IH" [OF True inc refl _ this] a
      have "list_all2 same_parameters ws1 ws' \<and> rounds + 1 \<le> r'" by simp
      then show ?thesis
        using IncrementBids_frame [OF inc] by (auto intro: same_parameters_list_trans)
    qed
  qed
qed

section \<open>The round loop on valid bidders\<close>

subsection \<open>Valid working bidders: no error, and the potential decreases\<close>

lemma CanIncrement_steps:
  assumes "bid_invariant b" and "CanIncrement b"
  shows "0 < steps_available b"
    and "steps_available (snd (Increment rt b)) = steps_available b - 1"
proof -
  define x where "x = sint (maxBidCents b) - sint (currentBidCents b)"
  define d where "d = sint (autoIncrementCents b)"
  have d: "0 < d" using assms(1) by (simp add: bid_invariant_def d_def)
  have "sint (currentBidCents b) + d \<le> sint (maxBidCents b)"
    using assms sint_cur_add [OF assms(1)] by (simp add: CanIncrement_def d_def)
  then have xd: "d \<le> x" by (simp add: x_def)
  then have pos: "0 < x div d" using d by (simp add: pos_imp_zdiv_pos_iff)
  then show "0 < steps_available b" by (simp add: steps_available_def x_def d_def)
  have "(x - d + d) div d = (x - d) div d + 1"
    using d by (subst div_add_self2) simp_all
  then have "(x - d) div d = x div d - 1" by simp
  moreover have "sint (currentBidCents (snd (Increment rt b))) = sint (currentBidCents b) + d"
    using sint_cur_add [OF assms(1)] by (simp add: Increment_adds [OF assms(2)] d_def)
  then have "steps_available (snd (Increment rt b)) = nat ((x - d) div d)"
    by (simp add: steps_available_def Increment_frame x_def d_def algebra_simps)
  moreover have "steps_available b = nat (x div d)"
    by (simp add: steps_available_def x_def d_def)
  ultimately show "steps_available (snd (Increment rt b)) = steps_available b - 1"
    using pos by (simp add: nat_diff_distrib)
qed

lemma working_ok_Increment: "working_ok b \<Longrightarrow> working_ok (snd (Increment rt b))"
  by (simp add: working_ok_def Increment_invariant Increment_frame)

lemma working_ok_pass_step: "working_ok b \<Longrightarrow> working_ok (pass_step rt h b)"
  by (simp add: pass_step_def working_ok_Increment)

lemma pass_step_steps:
  assumes "working_ok b"
  shows "steps_available (pass_step rt h b) \<le> steps_available b"
    and "losing h b \<Longrightarrow> steps_available (pass_step rt h b) < steps_available b"
  using assms CanIncrement_steps(1) [of b] CanIncrement_steps(2) [of b rt]
  by (auto simp add: pass_step_def working_ok_def losing_def)

lemma sum_list_pass_le:
  "\<forall>b\<in>set bs. working_ok b
   \<Longrightarrow> sum_list (map steps_available (map (pass_step rt h) bs)) \<le> sum_list (map steps_available bs)"
proof (induction bs)
  case Nil
  then show ?case by simp
next
  case (Cons b bs)
  then show ?case using pass_step_steps(1) [of b rt h] by (simp add: add_mono)
qed

lemma sum_list_pass_less:
  "\<forall>b\<in>set bs. working_ok b \<Longrightarrow> \<exists>b\<in>set bs. losing h b
   \<Longrightarrow> sum_list (map steps_available (map (pass_step rt h) bs)) < sum_list (map steps_available bs)"
proof (induction bs)
  case Nil
  then show ?case by simp
next
  case (Cons b bs)
  show ?case
  proof (cases "losing h b")
    case True
    then show ?thesis
      using Cons.prems(1) pass_step_steps(2) [of b h rt] sum_list_pass_le [of bs rt h]
      by (simp add: add_less_le_mono)
  next
    case False
    then have "\<exists>b\<in>set bs. losing h b" using Cons.prems(2) by simp
    then show ?thesis
      using Cons.IH Cons.prems(1) pass_step_steps(1) [of b rt h]
      by (simp add: add_le_less_mono)
  qed
qed

lemma working_ok_nonneg: "working_ok b \<Longrightarrow> 0 \<le> sint (currentBidCents b)"
  by (simp add: working_ok_def bid_invariant_def)

lemma findHighestBidCents_loop_ok:
  "\<forall>b\<in>set bs. 0 \<le> sint (currentBidCents b) \<Longrightarrow> 0 \<le> sint h
   \<Longrightarrow> \<exists>H. findHighestBidCents_loop h bs = Inr H \<and> 0 \<le> sint H"
  by (induction bs arbitrary: h) (simp_all add: GetCurrentBidCents_def)

lemma findHighestBidCents_ok:
  assumes "\<forall>b\<in>set bs. 0 \<le> sint (currentBidCents b)"
  shows "\<exists>H. findHighestBidCents bs = Inr H"
proof (cases bs)
  case Nil
  then show ?thesis by (simp add: findHighestBidCents_def)
next
  case (Cons b rest)
  then obtain H where "findHighestBidCents_loop (currentBidCents b) rest = Inr H" "0 \<le> sint H"
    using assms findHighestBidCents_loop_ok [of rest "currentBidCents b"] by auto
  then show ?thesis
    using assms Cons by (simp add: findHighestBidCents_def GetCurrentBidCents_def)
qed

lemma IncrementBids_ok:
  assumes "\<forall>b\<in>set bs. working_ok b"
  shows "\<exists>a bs'. IncrementBids rt bs = Inr (a, bs')
           \<and> (\<forall>b\<in>set bs'. working_ok b)
           \<and> sum_list (map steps_available bs') \<le> sum_list (map steps_available bs)
           \<and> (a \<longrightarrow> sum_list (map steps_available bs') < sum_list (map steps_available bs))"
proof (cases "length bs \<le> 1")
  case True
  then show ?thesis using assms by (auto simp add: IncrementBids_def)
next
  case False
  obtain h where h: "findHighestBidCents bs = Inr h"
    using findHighestBidCents_ok [of bs] assms working_ok_nonneg by blast
  have "IncrementBids rt bs = Inr (\<exists>b\<in>set bs. losing h b, map (pass_step rt h) bs)"
    using False h by (simp add: IncrementBids_def IncrementBids_loop_eq)
  then show ?thesis
    using assms sum_list_pass_le [of bs rt h] sum_list_pass_less [of bs h rt]
    by (auto simp add: working_ok_pass_step)
qed

lemma round_loop_ok:
  "\<forall>b\<in>set ws. working_ok b
   \<Longrightarrow> \<exists>r' ws'. round_loop rt be r ws = Inr (r', ws')
         \<and> (\<forall>b\<in>set ws'. working_ok b)
         \<and> r' \<le> r + int (sum_list (map steps_available ws))
         \<and> (r \<le> maxRounds be \<longrightarrow> r' \<le> maxRounds be)"
proof (induction rt be r ws rule: round_loop.induct)
  case (1 rt be rounds ws)
  show ?case
  proof (cases "rounds < maxRounds be")
    case False
    then show ?thesis using "1.prems" by (subst round_loop.simps) simp
  next
    case True
    obtain a ws1 where inc: "IncrementBids rt ws = Inr (a, ws1)"
      and ok1: "\<forall>b\<in>set ws1. working_ok b"
      and le: "sum_list (map steps_available ws1) \<le> sum_list (map steps_available ws)"
      and less: "a \<longrightarrow> sum_list (map steps_available ws1) < sum_list (map steps_available ws)"
      using IncrementBids_ok [OF "1.prems", of rt] by blast
    show ?thesis
    proof (cases a)
      case False
      then have "round_loop rt be rounds ws = Inr (rounds, ws1)"
        using True inc by (subst round_loop.simps) simp
      then show ?thesis using ok1 True by simp
    next
      case a: True
      have eq: "round_loop rt be rounds ws = round_loop rt be (rounds + 1) ws1"
        using True inc a by (subst round_loop.simps) simp
      from "1.IH" [OF True inc refl _ ok1] a
      obtain r' ws' where "round_loop rt be (rounds + 1) ws1 = Inr (r', ws')"
        "\<forall>b\<in>set ws'. working_ok b"
        "r' \<le> rounds + 1 + int (sum_list (map steps_available ws1))"
        "rounds + 1 \<le> maxRounds be \<longrightarrow> r' \<le> maxRounds be"
        by auto
      then show ?thesis using eq less a True by auto
    qed
  qed
qed

subsection \<open>findWinner\<close>

lemma findWinner_loop_bound:
  "findWinner_loop bs i w = Inr w' \<Longrightarrow> w < length bs \<Longrightarrow> w' < length bs"
proof (induction bs i w rule: findWinner_loop.induct)
  case (1 bs i w)
  show ?case
  proof (cases "i < length bs")
    case False
    then show ?thesis using "1.prems" by (subst (asm) findWinner_loop.simps) simp
  next
    case True
    then show ?thesis
      using "1.prems" "1.IH"
      by (subst (asm) findWinner_loop.simps) (auto split: if_splits)
  qed
qed

lemma findWinner_loop_ok:
  "\<forall>b\<in>set bs. 0 \<le> sint (currentBidCents b) \<Longrightarrow> \<exists>w'. findWinner_loop bs i w = Inr w'"
proof (induction bs i w rule: findWinner_loop.induct)
  case (1 bs i w)
  show ?case
  proof (cases "i < length bs")
    case False
    then show ?thesis by (subst findWinner_loop.simps) simp
  next
    case True
    then have "\<not> sint (GetCurrentBidCents (bs ! i)) < 0"
      using "1.prems" by (simp add: GetCurrentBidCents_def not_less)
    then show ?thesis
      using True "1.prems" "1.IH"
      by (subst findWinner_loop.simps) auto
  qed
qed

lemma findWinner_Some: "findWinner bs = Inr (Some w) \<Longrightarrow> w < length bs"
  by (cases "bs = []")
    (auto simp add: findWinner_def split: sum.splits if_splits dest: findWinner_loop_bound)

lemma findWinner_ok:
  assumes "\<forall>b\<in>set bs. 0 \<le> sint (currentBidCents b)" and "bs \<noteq> []"
  shows "\<exists>w. findWinner bs = Inr (Some w) \<and> w < length bs"
proof -
  obtain w where w: "findWinner_loop bs 1 0 = Inr w"
    using findWinner_loop_ok [OF assms(1)] by blast
  then have "w < length bs" using assms(2) by (auto dest: findWinner_loop_bound)
  then have "\<not> sint (GetCurrentBidCents (bs ! w)) < 0"
    using assms(1) by (simp add: GetCurrentBidCents_def not_less)
  then show ?thesis
    using w assms(2) \<open>w < length bs\<close> by (simp add: findWinner_def)
qed

section \<open>Termination and the number of rounds\<close>

lemma reinitialize_fields:
  "ID (reinitialize rt b) = ID b"
  "EntryTime (reinitialize rt b) = EntryTime b"
  "IsActive (reinitialize rt b)"
  "startingBidCents (reinitialize rt b) = DollarsToCents rt (StartingBid b)"
  "maxBidCents (reinitialize rt b) = DollarsToCents rt (MaxBid b)"
  "autoIncrementCents (reinitialize rt b) = DollarsToCents rt (AutoIncrement b)"
  "currentBidCents (reinitialize rt b) = DollarsToCents rt (StartingBid b)"
  by (simp_all add: reinitialize_def NewBidder_def)

lemma working_ok_reinitialize: "valid_input rt b \<Longrightarrow> working_ok (reinitialize rt b)"
  by (simp add: valid_input_def working_ok_def bid_invariant_def reinitialize_fields)

lemma sort_Slice_mset:
  "sort_Slice_contract rt \<Longrightarrow> mset (sort_Slice rt entry_less xs) = mset xs"
  by (simp add: sort_Slice_contract_def)

lemma sort_Slice_set:
  "sort_Slice_contract rt \<Longrightarrow> set (sort_Slice rt entry_less xs) = set xs"
  using sort_Slice_mset [of rt xs] by (metis set_mset_mset)

lemma sort_Slice_length:
  "sort_Slice_contract rt \<Longrightarrow> length (sort_Slice rt entry_less xs) = length xs"
  using sort_Slice_mset [of rt xs] by (metis size_mset)

lemma sort_Slice_sum:
  fixes f :: "'f Bidder \<Rightarrow> nat"
  assumes "sort_Slice_contract rt"
  shows "sum_list (map f (sort_Slice rt entry_less xs)) = sum_list (map f xs)"
proof -
  have "mset (map f (sort_Slice rt entry_less xs)) = mset (map f xs)"
    using sort_Slice_mset [OF assms, of xs] by (metis mset_map)
  then show ?thesis by (metis sum_mset_sum_list)
qed

lemma CalculateMinimumWinningBidCents_ok:
  assumes "w < length ws" and "0 < sint (startingBidCents (ws ! w))"
  shows "\<exists>c. CalculateMinimumWinningBidCents ws (Some (ws ! w)) = Inr c"
proof -
  have "list_ex (\<lambda>bidder. ID bidder = ID (ws ! w)) ws"
    using assms(1) by (auto simp add: list_ex_iff)
  moreover have "ws \<noteq> []" using assms(1) by auto
  ultimately show ?thesis
    using assms(2)
    by (auto simp add: CalculateMinimumWinningBidCents_def Let_def GetStartingBidCents_def)
qed

text \<open>What a successful run of \<open>ProcessBids\<close> on a non-empty list went through.\<close>

lemma ProcessBids_Inr:
  assumes "ProcessBids rt be bidders = Inr r" and "bidders \<noteq> []"
  shows "\<exists>ws. round_loop rt be 0 (sort_Slice rt entry_less (map (reinitialize rt) bidders))
                 = Inr (BiddingRounds r, ws)
           \<and> BiddingRounds r < maxRounds be
           \<and> AllBidders r = map (SyncFloatFields rt) ws
           \<and> TotalBidders r = int (length bidders)
           \<and> findWinner ws = Inr (Winner r)
           \<and> (\<forall>w. Winner r = Some w \<longrightarrow>
                 CalculateMinimumWinningBidCents ws (Some (ws ! w)) = Inr (winningBidCents r))"
  using assms
  by (auto simp add: ProcessBids_def Let_def NewBidResult_def NewBidResultFromCents_def
      split: sum.splits prod.splits if_splits option.splits)

text \<open>
  Claim C4, as amended. For a non-empty list of valid bidders the round loop ends and
  \<open>ProcessBids\<close> returns either a result or the timeout error. A result reports fewer
  than 1000 rounds and at most as many as the increments available to all bidders
  together, the sum over the bidders of \<open>floor((maxBid - startingBid) / autoIncrement)\<close>;
  the timeout error occurs only if that sum is at least 1000.
\<close>

theorem ProcessBids_rounds_bound:
  assumes "sort_Slice_contract rt" and "bidders \<noteq> []"
    and "\<forall>b\<in>set bidders. valid_input rt b"
  shows "(\<exists>r. ProcessBids rt NewBiddingEngine bidders = Inr r
            \<and> 0 \<le> BiddingRounds r
            \<and> BiddingRounds r
                 \<le> int (sum_list (map (\<lambda>b. steps_available (reinitialize rt b)) bidders))
            \<and> BiddingRounds r < 1000)
       \<or> (ProcessBids rt NewBiddingEngine bidders
             = Inl (TimeoutError ''bidding process exceeded maximum rounds'')
           \<and> 1000 \<le> sum_list (map (\<lambda>b. steps_available (reinitialize rt b)) bidders))"
proof -
  define ws0 where "ws0 = sort_Slice rt entry_less (map (reinitialize rt) bidders)"
  have ok0: "\<forall>b\<in>set ws0. working_ok b"
    using assms(3) by (auto simp add: ws0_def sort_Slice_set [OF assms(1)] working_ok_reinitialize)
  have sum0: "sum_list (map steps_available ws0)
                = sum_list (map (\<lambda>b. steps_available (reinitialize rt b)) bidders)"
    by (simp add: ws0_def sort_Slice_sum [OF assms(1)] comp_def)
  have len0: "length ws0 = length bidders"
    by (simp add: ws0_def sort_Slice_length [OF assms(1)])
  obtain r' ws where loop: "round_loop rt NewBiddingEngine 0 ws0 = Inr (r', ws)"
    and ok: "\<forall>b\<in>set ws. working_ok b"
    and le: "r' \<le> 0 + int (sum_list (map steps_available ws0))"
    and cap: "r' \<le> maxRounds NewBiddingEngine"
    using round_loop_ok [OF ok0, of rt NewBiddingEngine 0]
    by (auto simp add: NewBiddingEngine_def)
  have fr: "list_all2 same_parameters ws0 ws" and nn: "0 \<le> r'"
    using round_loop_frame [OF loop] by simp_all
  have ne: "ws \<noteq> []"
    using list_all2_lengthD [OF fr] len0 assms(2) by auto
  show ?thesis
  proof (cases "r' < 1000")
    case False
    then have "ProcessBids rt NewBiddingEngine bidders
             = Inl (TimeoutError ''bidding process exceeded maximum rounds'')"
      using assms(2) loop by (simp add: ProcessBids_def ws0_def [symmetric] NewBiddingEngine_def)
    then show ?thesis using False le sum0 by simp
  next
    case True
    obtain w where w: "findWinner ws = Inr (Some w)" "w < length ws"
      using findWinner_ok [OF _ ne] ok working_ok_nonneg by blast
    have "0 < sint (startingBidCents (ws ! w))"
      using ok w(2) by (simp add: working_ok_def)
    then obtain c where "CalculateMinimumWinningBidCents ws (Some (ws ! w)) = Inr c"
      using CalculateMinimumWinningBidCents_ok [OF w(2)] by blast
    then have "ProcessBids rt NewBiddingEngine bidders
                 = Inr (NewBidResultFromCents rt (Some w) c (int (length bidders)) r' ws)"
      using assms(2) loop True w(1)
      by (simp add: ProcessBids_def ws0_def [symmetric] NewBiddingEngine_def)
    then show ?thesis
      using True le nn sum0 by (simp add: NewBidResultFromCents_def)
  qed
qed

text \<open>
  The theorem at Alice (10.00, 13.00, 2.00) and Bob (9.00, 13.00, 2.00): three
  increments are available.
\<close>

theorem ProcessBids_rounds_bound_witness:
  "sort_Slice_contract exact_runtime \<and> two_bidders \<noteq> []
   \<and> list_all (valid_input exact_runtime) two_bidders
   \<and> sum_list (map (\<lambda>b. steps_available (reinitialize exact_runtime b)) two_bidders) = 3
   \<and> (\<exists>r. ProcessBids exact_runtime NewBiddingEngine two_bidders = Inr r
            \<and> 0 \<le> BiddingRounds r \<and> BiddingRounds r \<le> 3 \<and> BiddingRounds r < 1000)"
proof -
  have h2: "two_bidders \<noteq> []" by code_simp
  have h3: "list_all (valid_input exact_runtime) two_bidders" by code_simp
  have h4: "sum_list (map (\<lambda>b. steps_available (reinitialize exact_runtime b)) two_bidders) = 3"
    by code_simp
  have h3': "\<forall>b\<in>set two_bidders. valid_input exact_runtime b"
    using h3 by (simp add: list_all_iff)
  have "\<exists>r. ProcessBids exact_runtime NewBiddingEngine two_bidders = Inr r
            \<and> 0 \<le> BiddingRounds r \<and> BiddingRounds r \<le> 3 \<and> BiddingRounds r < 1000"
    using ProcessBids_rounds_bound [OF exact_runtime_contract h2 h3'] unfolding h4 by auto
  then show ?thesis
    using exact_runtime_contract h2 h3 h4 by blast
qed

text \<open>
  Claim C4 as stated bounds the rounds by the largest
  \<open>ceil((maxBid - startingBid) / autoIncrement)\<close> of a bidder. For Alice and Bob above that
  is 2, and the engine runs 3 rounds: the two take turns at being the losing bidder.
\<close>

theorem rounds_exceed_spec_bound:
  "(case ProcessBids exact_runtime NewBiddingEngine two_bidders of
      Inl e \<Rightarrow> False
    | Inr r \<Rightarrow> BiddingRounds r = 3 \<and> spec_round_bound (AllBidders r) = 2)"
  by code_simp

section \<open>The minimum winning bid\<close>

subsection \<open>The second-highest maximum\<close>

lemma secondHighest_fold_ge:
  fixes wid :: string
  defines "f \<equiv> (\<lambda>bidder acc.
             if ID bidder = wid then acc
             else if sint acc < sint (GetMaxBidCents bidder) then GetMaxBidCents bidder
             else acc)"
  shows "sint acc \<le> sint (fold f bs acc)
   \<and> (\<forall>b\<in>set bs. ID b \<noteq> wid \<longrightarrow> sint (maxBidCents b) \<le> sint (fold f bs acc))"
proof (induction bs arbitrary: acc)
  case Nil
  then show ?case by simp
next
  case (Cons b bs)
  have "sint acc \<le> sint (f b acc)" "ID b \<noteq> wid \<longrightarrow> sint (maxBidCents b) \<le> sint (f b acc)"
    by (auto simp add: f_def GetMaxBidCents_def)
  then show ?case
    using Cons.IH [of "f b acc"] by auto
qed

lemma secondHighest_fold_in:
  fixes wid :: string
  defines "f \<equiv> (\<lambda>bidder acc.
             if ID bidder = wid then acc
             else if sint acc < sint (GetMaxBidCents bidder) then GetMaxBidCents bidder
             else acc)"
  shows "fold f bs acc = acc
   \<or> (\<exists>b\<in>set bs. ID b \<noteq> wid \<and> fold f bs acc = maxBidCents b)"
proof (induction bs arbitrary: acc)
  case Nil
  then show ?case by simp
next
  case (Cons b bs)
  have "f b acc = acc \<or> (ID b \<noteq> wid \<and> f b acc = maxBidCents b)"
    by (auto simp add: f_def GetMaxBidCents_def)
  then show ?case
    using Cons.IH [of "f b acc"] by auto
qed

lemma secondHighestCents_skip:
  "secondHighestCents (xs @ W # ys) (ID W) = secondHighestCents (xs @ ys) (ID W)"
  by (simp add: secondHighestCents_def)

lemma secondHighestCents_Max:
  assumes "\<forall>b\<in>set bs. ID b \<noteq> wid" and "bs \<noteq> []"
    and "\<forall>b\<in>set bs. 0 < sint (maxBidCents b)"
  shows "sint (secondHighestCents bs wid) = Max (set (map (\<lambda>b. sint (maxBidCents b)) bs))"
proof -
  define s where "s = secondHighestCents bs wid"
  have ge: "\<forall>b\<in>set bs. sint (maxBidCents b) \<le> sint s" and ge0: "0 \<le> sint s"
    using secondHighest_fold_ge [where acc = 0 and bs = bs and wid = wid] assms(1)
    by (auto simp add: s_def secondHighestCents_def)
  obtain b0 where b0: "b0 \<in> set bs" using assms(2) by (cases bs) auto
  then have "0 < sint s" using ge assms(3) by fastforce
  then have "s \<noteq> 0" by auto
  then obtain b where "b \<in> set bs" "s = maxBidCents b"
    using secondHighest_fold_in [where acc = 0 and bs = bs and wid = wid] by (auto simp add: s_def secondHighestCents_def)
  then have "sint s \<in> set (map (\<lambda>b. sint (maxBidCents b)) bs)" by auto
  moreover have "\<forall>y\<in>set (map (\<lambda>b. sint (maxBidCents b)) bs). y \<le> sint s"
    using ge by auto
  ultimately have "Max (set (map (\<lambda>b. sint (maxBidCents b)) bs)) = sint s"
    by (intro Max_eqI) auto
  then show ?thesis by (simp add: s_def)
qed

lemma secondHighestCents_others:
  assumes "distinct (map ID ws)" and "w < length ws"
    and "\<forall>b\<in>set ws. 0 < sint (maxBidCents b)"
  shows "others ws w = [] \<longrightarrow> secondHighestCents ws (ID (ws ! w)) = 0"
    and "others ws w \<noteq> [] \<longrightarrow> sint (secondHighestCents ws (ID (ws ! w)))
           = Max (set (map (\<lambda>b. sint (maxBidCents b)) (others ws w)))"
proof -
  define xs ys W where "xs = take w ws" and "ys = drop (Suc w) ws" and "W = ws ! w"
  have ws: "ws = xs @ W # ys"
    using assms(2) by (simp add: xs_def ys_def W_def id_take_nth_drop)
  have oth: "others ws w = xs @ ys" by (simp add: others_def xs_def ys_def)
  have "secondHighestCents (xs @ W # ys) (ID W) = secondHighestCents (xs @ ys) (ID W)"
    by (rule secondHighestCents_skip)
  then have skip: "secondHighestCents ws (ID W) = secondHighestCents (xs @ ys) (ID W)"
    using ws by simp
  have "distinct (map ID (xs @ W # ys))" using assms(1) ws by simp
  then have notin: "ID W \<notin> ID ` set xs" "ID W \<notin> ID ` set ys" by simp_all
  have ids: "\<forall>b\<in>set (xs @ ys). ID b \<noteq> ID W"
  proof
    fix b
    assume "b \<in> set (xs @ ys)"
    then have "b \<in> set xs \<or> b \<in> set ys" by simp
    then have "ID b \<in> ID ` set xs \<or> ID b \<in> ID ` set ys" by blast
    then show "ID b \<noteq> ID W" using notin by metis
  qed
  have "set ws = set (xs @ W # ys)" using ws by simp
  then have "set (xs @ ys) \<subseteq> set ws" by auto
  then have pos: "\<forall>b\<in>set (xs @ ys). 0 < sint (maxBidCents b)"
    using assms(3) by blast
  have "xs @ ys = [] \<Longrightarrow> secondHighestCents (xs @ ys) (ID W) = 0"
    by (simp add: secondHighestCents_def)
  then show "others ws w = [] \<longrightarrow> secondHighestCents ws (ID (ws ! w)) = 0"
    unfolding oth W_def [symmetric] skip by blast
  have "xs @ ys \<noteq> [] \<Longrightarrow> sint (secondHighestCents (xs @ ys) (ID W))
          = Max (set (map (\<lambda>b. sint (maxBidCents b)) (xs @ ys)))"
    using secondHighestCents_Max [OF ids _ pos] by blast
  then show "others ws w \<noteq> [] \<longrightarrow> sint (secondHighestCents ws (ID (ws ! w)))
           = Max (set (map (\<lambda>b. sint (maxBidCents b)) (others ws w)))"
    unfolding oth W_def [symmetric] skip by blast
qed

lemma CalculateMinimumWinningBidCents_spec:
  assumes "distinct (map ID ws)" and "w < length ws"
    and "\<forall>b\<in>set ws. 0 < sint (maxBidCents b)"
    and "sint (startingBidCents (ws ! w)) \<le> sint (maxBidCents (ws ! w))"
    and "0 < sint (autoIncrementCents (ws ! w))"
    and "CalculateMinimumWinningBidCents ws (Some (ws ! w)) = Inr c"
    and "others ws w \<noteq> [] \<longrightarrow>
           Max (set (map (\<lambda>b. sint (maxBidCents b)) (others ws w)))
             + sint (autoIncrementCents (ws ! w)) < 2 ^ 63"
  shows "sint c = spec_winning_bid ws w"
proof (cases "others ws w = []")
  case True
  then have "secondHighestCents ws (ID (ws ! w)) = 0"
    using secondHighestCents_others(1) [OF assms(1-3)] by simp
  then show ?thesis
    using assms(6) True
    by (simp add: CalculateMinimumWinningBidCents_def spec_winning_bid_def
        GetStartingBidCents_def split: if_splits)
next
  case False
  let ?S = "secondHighestCents ws (ID (ws ! w))"
  let ?W = "ws ! w"
  have S: "sint ?S = Max (set (map (\<lambda>b. sint (maxBidCents b)) (others ws w)))"
    using secondHighestCents_others(2) [OF assms(1-3)] False by simp
  obtain b where b: "b \<in> set (others ws w)" using False by (cases "others ws w") auto
  then have "b \<in> set ws" by (auto simp add: others_def dest: in_set_takeD in_set_dropD)
  then have "0 < sint (maxBidCents b)" using assms(3) by simp
  moreover have "sint (maxBidCents b) \<le> sint ?S"
    unfolding S using b by (intro Max_ge) auto
  ultimately have Spos: "0 < sint ?S" by simp
  then have S0: "?S \<noteq> 0" by auto
  have add: "sint (?S + autoIncrementCents ?W) = sint ?S + sint (autoIncrementCents ?W)"
    using assms(5,7) False Spos S by (intro sint_add64) simp_all
  have ne: "ws \<noteq> []" using assms(2) by auto
  have ex: "list_ex (\<lambda>bidder. ID bidder = ID ?W) ws"
    using assms(2) by (auto simp add: list_ex_iff)
  have "sint c = max (sint (startingBidCents ?W))
                        (min (sint (maxBidCents ?W)) (sint ?S + sint (autoIncrementCents ?W)))"
  proof (cases "sint (maxBidCents ?W) < sint (?S + autoIncrementCents ?W)")
    case True
    then have "c = (if sint (maxBidCents ?W) < sint (startingBidCents ?W)
                    then startingBidCents ?W else maxBidCents ?W)"
      using assms(6) S0 ne ex
      by (simp add: CalculateMinimumWinningBidCents_def Let_def
          GetStartingBidCents_def GetMaxBidCents_def GetAutoIncrementCents_def split: if_splits)
    then show ?thesis using True add assms(4) by simp
  next
    case False
    then have "c = (if sint (?S + autoIncrementCents ?W) < sint (startingBidCents ?W)
                    then startingBidCents ?W else ?S + autoIncrementCents ?W)"
      using assms(6) S0 ne ex
      by (simp add: CalculateMinimumWinningBidCents_def Let_def
          GetStartingBidCents_def GetMaxBidCents_def GetAutoIncrementCents_def split: if_splits)
    then show ?thesis using False add by (simp split: if_splits)
  qed
  then show ?thesis
    using False by (simp add: spec_winning_bid_def S)
qed

section \<open>What the winner pays\<close>

subsection \<open>From the input to the working copy\<close>

lemma others_map: "others (map f xs) w = map f (others xs w)"
  by (simp add: others_def take_map drop_map)

lemma SyncFloatFields_cents:
  "ID (SyncFloatFields rt b) = ID b"
  "startingBidCents (SyncFloatFields rt b) = startingBidCents b"
  "maxBidCents (SyncFloatFields rt b) = maxBidCents b"
  "autoIncrementCents (SyncFloatFields rt b) = autoIncrementCents b"
  "currentBidCents (SyncFloatFields rt b) = currentBidCents b"
  by (simp_all add: SyncFloatFields_def)

lemma spec_winning_bid_Sync:
  "w < length ws
   \<Longrightarrow> spec_winning_bid (map (SyncFloatFields rt) ws) w = spec_winning_bid ws w"
  by (simp add: spec_winning_bid_def others_map SyncFloatFields_cents comp_def)

lemma same_parameters_maps:
  "list_all2 same_parameters xs ys
   \<Longrightarrow> map ID ys = map ID xs \<and> map startingBidCents ys = map startingBidCents xs
       \<and> map maxBidCents ys = map maxBidCents xs
       \<and> map autoIncrementCents ys = map autoIncrementCents xs"
  by (induction rule: list_all2_induct) (simp_all add: same_parameters_def)

lemma same_parameters_nth:
  assumes "list_all2 same_parameters xs ys" and "i < length ys"
  shows "same_parameters (xs ! i) (ys ! i)" and "xs ! i \<in> set xs"
  using assms by (simp_all add: list_all2_conv_all_nth)

lemma same_parameters_set:
  assumes "list_all2 same_parameters xs ys" and "y \<in> set ys"
  shows "\<exists>x\<in>set xs. same_parameters x y"
proof -
  obtain i where "i < length ys" "y = ys ! i"
    using assms(2) by (auto simp add: in_set_conv_nth)
  then show ?thesis using same_parameters_nth [OF assms(1), of i] by blast
qed


subsection \<open>The payment\<close>

text \<open>
  Claim C1, as amended. Let the cents of every bidder be positive with
  \<open>startingBid \<le> maxBid\<close>, and let the bidder IDs be pairwise distinct. When
  \<open>ProcessBids\<close> produces a winner, the winner pays its starting bid if there is no
  other bidder; otherwise, with \<open>S\<close> the highest \<open>maxBid\<close> among the other bidders
  and \<open>S + autoIncrement\<close> of the winner within \<open>int64\<close>, it pays that sum clamped to
  at most its own \<open>maxBid\<close> and at least its own \<open>startingBid\<close>.
\<close>

theorem winner_pays_second_price:
  assumes "sort_Slice_contract rt"
    and "\<forall>b\<in>set bidders.
           0 < sint (DollarsToCents rt (StartingBid b))
           \<and> sint (DollarsToCents rt (StartingBid b)) \<le> sint (DollarsToCents rt (MaxBid b))
           \<and> 0 < sint (DollarsToCents rt (AutoIncrement b))"
    and "distinct (map ID bidders)"
    and "ProcessBids rt be bidders = Inr r"
    and "Winner r = Some w"
    and "others (AllBidders r) w \<noteq> [] \<longrightarrow>
           Max (set (map (\<lambda>b. sint (maxBidCents b)) (others (AllBidders r) w)))
             + sint (autoIncrementCents (AllBidders r ! w)) < 2 ^ 63"
  shows "w < length (AllBidders r)
       \<and> sint (winningBidCents r) = spec_winning_bid (AllBidders r) w"
proof -
  have ne: "bidders \<noteq> []"
    using assms(4,5) by (auto simp add: ProcessBids_def NewBidResult_def)
  define ws0 where "ws0 = sort_Slice rt entry_less (map (reinitialize rt) bidders)"
  obtain ws where loop: "round_loop rt be 0 ws0 = Inr (BiddingRounds r, ws)"
    and all: "AllBidders r = map (SyncFloatFields rt) ws"
    and fw: "findWinner ws = Inr (Some w)"
    and calc: "CalculateMinimumWinningBidCents ws (Some (ws ! w)) = Inr (winningBidCents r)"
    using ProcessBids_Inr [OF assms(4) ne] assms(5) unfolding ws0_def by auto
  have w: "w < length ws" using fw by (rule findWinner_Some)
  have fr: "list_all2 same_parameters ws0 ws" using round_loop_frame [OF loop] by simp
  have set0: "set ws0 = reinitialize rt ` set bidders"
    by (simp add: ws0_def sort_Slice_set [OF assms(1)])
  have ok0: "\<forall>b\<in>set ws0. 0 < sint (startingBidCents b)
                \<and> sint (startingBidCents b) \<le> sint (maxBidCents b)
                \<and> 0 < sint (autoIncrementCents b)"
    using assms(2) by (auto simp add: set0 reinitialize_fields)
  have ok: "\<forall>b\<in>set ws. 0 < sint (startingBidCents b)
                \<and> sint (startingBidCents b) \<le> sint (maxBidCents b)
                \<and> 0 < sint (autoIncrementCents b)"
  proof
    fix b
    assume "b \<in> set ws"
    then obtain b0 where "b0 \<in> set ws0" "same_parameters b0 b"
      using same_parameters_set [OF fr] by blast
    then show "0 < sint (startingBidCents b)
                \<and> sint (startingBidCents b) \<le> sint (maxBidCents b)
                \<and> 0 < sint (autoIncrementCents b)"
      using ok0 by (simp add: same_parameters_def)
  qed
  have "map ID (map (reinitialize rt) bidders) = map ID bidders"
    by (simp add: reinitialize_fields)
  moreover have "mset ws0 = mset (map (reinitialize rt) bidders)"
    unfolding ws0_def by (rule sort_Slice_mset [OF assms(1)])
  ultimately have "mset (map ID ws0) = mset (map ID bidders)"
    by (metis mset_map)
  then have "distinct (map ID ws0)"
    using assms(3) mset_eq_imp_distinct_iff by blast
  then have dist: "distinct (map ID ws)"
    using same_parameters_maps [OF fr] by simp
  have pos: "\<forall>b\<in>set ws. 0 < sint (maxBidCents b)"
    using ok by fastforce
  have nth: "ws ! w \<in> set ws" using w by simp
  have no: "others ws w \<noteq> [] \<longrightarrow>
           Max (set (map (\<lambda>b. sint (maxBidCents b)) (others ws w)))
             + sint (autoIncrementCents (ws ! w)) < 2 ^ 63"
    using assms(6) w
    by (simp add: all others_map SyncFloatFields_cents comp_def)
  have "sint (winningBidCents r) = spec_winning_bid ws w"
    using ok nth by (intro CalculateMinimumWinningBidCents_spec [OF dist w pos _ _ calc no]) auto
  then show ?thesis
    using w by (simp add: all spec_winning_bid_Sync)
qed

section \<open>The payment on concrete auctions\<close>

text \<open>
  The theorem at the second-price scenario of the specification: Alice (100, 300, 25)
  wins against Bob (110, 250, 20) and pays 250 + 25.
\<close>

theorem winner_pays_second_price_witness:
  "Winner (projr (ProcessBids exact_runtime NewBiddingEngine second_price_bidders)) = Some 0
   \<and> sint (winningBidCents (projr (ProcessBids exact_runtime NewBiddingEngine second_price_bidders)))
       = spec_winning_bid
           (AllBidders (projr (ProcessBids exact_runtime NewBiddingEngine second_price_bidders))) 0
   \<and> sint (winningBidCents (projr (ProcessBids exact_runtime NewBiddingEngine second_price_bidders)))
       = 27500"
proof -
  define r where "r = projr (ProcessBids exact_runtime NewBiddingEngine second_price_bidders)"
  have "\<not> isl (ProcessBids exact_runtime NewBiddingEngine second_price_bidders)"
    by code_simp
  then have h4: "ProcessBids exact_runtime NewBiddingEngine second_price_bidders = Inr r"
    by (simp add: r_def)
  have "list_all (\<lambda>b. 0 < sint (DollarsToCents exact_runtime (StartingBid b))
           \<and> sint (DollarsToCents exact_runtime (StartingBid b))
                \<le> sint (DollarsToCents exact_runtime (MaxBid b))
           \<and> 0 < sint (DollarsToCents exact_runtime (AutoIncrement b))) second_price_bidders"
    by code_simp
  then have h2: "\<forall>b\<in>set second_price_bidders.
           0 < sint (DollarsToCents exact_runtime (StartingBid b))
           \<and> sint (DollarsToCents exact_runtime (StartingBid b))
                \<le> sint (DollarsToCents exact_runtime (MaxBid b))
           \<and> 0 < sint (DollarsToCents exact_runtime (AutoIncrement b))"
    by (simp add: list_all_iff)
  have h3: "distinct (map ID second_price_bidders)" by code_simp
  have h5: "Winner r = Some 0" unfolding r_def by code_simp
  have v: "sint (winningBidCents r) = 27500" unfolding r_def by code_simp
  have "Max (set (map (\<lambda>b. sint (maxBidCents b)) (others (AllBidders r) 0)))
             + sint (autoIncrementCents (AllBidders r ! 0)) < 2 ^ 63"
    unfolding r_def by code_simp
  then have h6: "others (AllBidders r) 0 \<noteq> [] \<longrightarrow>
           Max (set (map (\<lambda>b. sint (maxBidCents b)) (others (AllBidders r) 0)))
             + sint (autoIncrementCents (AllBidders r ! 0)) < 2 ^ 63"
    by simp
  show ?thesis
    using winner_pays_second_price [OF exact_runtime_contract h2 h3 h4 h5 h6] h5 v
    unfolding r_def by simp
qed

text \<open>
  Claim C1 as stated has no bound on the amounts. The sum \<open>S + autoIncrement\<close> is an
  \<open>int64\<close> addition: with Alice (1, \<open>9 * 10 ^ 16\<close>, \<open>9 * 10 ^ 16\<close>) and Bob
  (1, \<open>10 ^ 16\<close>, 1), in dollars, nobody bids, Alice wins as the earlier bidder, and
  \<open>10 ^ 18 + 9 * 10 ^ 18\<close> cents wraps to a negative number, which the lower clamp
  raises to her starting bid: she pays 100 cents where the claim has her maximum,
  \<open>9 * 10 ^ 18\<close> cents.
\<close>

theorem overflowing_sum_winner_pays_starting_bid:
  "list_all (\<lambda>b. 0 < sint (DollarsToCents exact_runtime (StartingBid b))
           \<and> sint (DollarsToCents exact_runtime (StartingBid b))
                \<le> sint (DollarsToCents exact_runtime (MaxBid b))
           \<and> 0 < sint (DollarsToCents exact_runtime (AutoIncrement b))) wide_bidders
   \<and> distinct (map ID wide_bidders)
   \<and> \<not> isl (ProcessBids exact_runtime NewBiddingEngine wide_bidders)
   \<and> Winner (projr (ProcessBids exact_runtime NewBiddingEngine wide_bidders)) = Some 0
   \<and> others (AllBidders (projr (ProcessBids exact_runtime NewBiddingEngine wide_bidders))) 0 \<noteq> []
   \<and> sint (winningBidCents (projr (ProcessBids exact_runtime NewBiddingEngine wide_bidders)))
       = 100
   \<and> spec_winning_bid
        (AllBidders (projr (ProcessBids exact_runtime NewBiddingEngine wide_bidders))) 0
       = 9000000000000000000"
  by code_simp

text \<open>The same auction with the \<open>float64\<close> conversions, which are exact on these amounts.\<close>

lemma wide_bidders_float64:
  "\<not> isl (ProcessBids float64_runtime NewBiddingEngine wide_bidders)
   \<and> Winner (projr (ProcessBids float64_runtime NewBiddingEngine wide_bidders)) = Some 0
   \<and> sint (winningBidCents (projr (ProcessBids float64_runtime NewBiddingEngine wide_bidders)))
       = 100
   \<and> spec_winning_bid
        (AllBidders (projr (ProcessBids float64_runtime NewBiddingEngine wide_bidders))) 0
       = 9000000000000000000"
  by code_simp

section \<open>Two identical bidders\<close>

lemma sort_Slice_two:
  assumes "sort_Slice_contract rt" and "entry_less a b"
  shows "sort_Slice rt entry_less [a, b] = [a, b]"
proof -
  define zs where "zs = sort_Slice rt entry_less [a, b]"
  have m: "mset zs = mset [a, b]"
    unfolding zs_def by (rule sort_Slice_mset [OF assms(1)])
  have srt: "sorted_wrt (\<lambda>x y. \<not> entry_less y x) zs"
    using assms(1) by (simp add: sort_Slice_contract_def zs_def)
  have "length zs = 2" using m by (metis length_Cons list.size(3) numeral_2_eq_2 size_mset)
  then obtain x y where zs: "zs = [x, y]"
    by (cases zs; cases "tl zs") auto
  have "(x = a \<and> y = b) \<or> (x = b \<and> y = a)"
    using m unfolding zs by (auto simp add: add_eq_conv_ex)
  then have "zs = [a, b]"
    using srt assms(2) unfolding zs by auto
  then show ?thesis by (simp add: zs_def)
qed

text \<open>
  Claim C5, as amended. Let \<open>A\<close> and \<open>B\<close> have different IDs and identical, valid
  amounts, \<open>A\<close> having entered strictly earlier. Then \<open>ProcessBids\<close> on \<open>[A, B]\<close>
  declares \<open>A\<close> (index 0) the winner after zero rounds, no bid has moved from its
  starting bid, and the winning bid is \<open>A\<close>'s \<open>maxBid\<close>: \<open>B\<close>'s maximum plus one
  increment, clamped to \<open>A\<close>'s own maximum.
\<close>

theorem identical_bidders_tie:
  assumes "sort_Slice_contract rt"
    and "ID A \<noteq> ID B"
    and "StartingBid A = StartingBid B" and "MaxBid A = MaxBid B"
    and "AutoIncrement A = AutoIncrement B"
    and "Before (EntryTime A) (EntryTime B)"
    and "valid_input rt A"
  shows "ProcessBids rt NewBiddingEngine [A, B]
           = Inr \<lparr> Winner = Some 0,
                   WinningBid = CentsToDollars rt (DollarsToCents rt (MaxBid A)),
                   TotalBidders = 2, BiddingRounds = 0,
                   AllBidders = [SyncFloatFields rt (reinitialize rt A),
                                 SyncFloatFields rt (reinitialize rt B)],
                   winningBidCents = DollarsToCents rt (MaxBid A) \<rparr>"
proof -
  define A' B' where "A' = reinitialize rt A" and "B' = reinitialize rt B"
  define s m a where "s = DollarsToCents rt (StartingBid A)"
    and "m = DollarsToCents rt (MaxBid A)" and "a = DollarsToCents rt (AutoIncrement A)"
  have val: "0 < sint s" "sint s \<le> sint m" "0 < sint a" "sint m + sint a < 2 ^ 63"
    using assms(7) by (simp_all add: valid_input_def s_def m_def a_def)
  have fA: "currentBidCents A' = s" "startingBidCents A' = s" "maxBidCents A' = m"
    "autoIncrementCents A' = a" "ID A' = ID A" "EntryTime A' = EntryTime A"
    by (simp_all add: A'_def reinitialize_fields s_def m_def a_def)
  have fB: "currentBidCents B' = s" "startingBidCents B' = s" "maxBidCents B' = m"
    "autoIncrementCents B' = a" "ID B' = ID B" "EntryTime B' = EntryTime B"
    using assms(3-5) by (simp_all add: B'_def reinitialize_fields s_def m_def a_def)
  have "entry_less A' B'" using assms(6) by (simp add: entry_less_def fA fB)
  then have sorted: "sort_Slice rt entry_less (map (reinitialize rt) [A, B]) = [A', B']"
    using sort_Slice_two [OF assms(1)] by (simp add: A'_def B'_def)
  have high: "findHighestBidCents [A', B'] = Inr s"
    using val(1) by (simp add: findHighestBidCents_def GetCurrentBidCents_def fA fB)
  have "IncrementBids rt [A', B'] = Inr (False, [A', B'])"
    by (simp add: IncrementBids_def high IncrementBids_loop_eq losing_def pass_step_def fA fB)
  then have loop: "round_loop rt NewBiddingEngine 0 [A', B'] = Inr (0, [A', B'])"
    by (subst round_loop.simps) (simp add: NewBiddingEngine_def)
  have "findWinner_loop [A', B'] 1 0 = Inr 0"
    using val(1) assms(6)
    by (subst findWinner_loop.simps, simp add: GetCurrentBidCents_def fA fB Before_def,
        subst findWinner_loop.simps, simp)
  then have win: "findWinner [A', B'] = Inr (Some 0)"
    using val(1) by (simp add: findWinner_def GetCurrentBidCents_def fA)
  have m0: "0 < sint m" using val(1,2) by simp
  then have mn: "m \<noteq> 0" by auto
  have second: "secondHighestCents [A', B'] (ID A) = m"
    using assms(2) m0 by (simp add: secondHighestCents_def GetMaxBidCents_def fA fB)
  have add: "sint (m + a) = sint m + sint a"
    using val m0 by (intro sint_add64) simp_all
  have calc: "CalculateMinimumWinningBidCents [A', B'] (Some ([A', B'] ! 0)) = Inr m"
    using val m0 mn add
    by (simp add: CalculateMinimumWinningBidCents_def second Let_def
        GetStartingBidCents_def GetMaxBidCents_def GetAutoIncrementCents_def fA)
  show ?thesis
    using sorted loop win calc
    by (simp add: ProcessBids_def NewBiddingEngine_def NewBidResultFromCents_def
        A'_def [symmetric] B'_def [symmetric] m_def)
qed

text \<open>
  The theorem at Alice and Bob, both (100, 150, 10), Alice first.
\<close>

theorem identical_bidders_tie_witness:
  "ProcessBids exact_runtime NewBiddingEngine tied_bidders
           = Inr \<lparr> Winner = Some 0,
                   WinningBid = CentsToDollars exact_runtime
                                  (DollarsToCents exact_runtime (MaxBid (tied_bidders ! 0))),
                   TotalBidders = 2, BiddingRounds = 0,
                   AllBidders = [SyncFloatFields exact_runtime
                                   (reinitialize exact_runtime (tied_bidders ! 0)),
                                 SyncFloatFields exact_runtime
                                   (reinitialize exact_runtime (tied_bidders ! 1))],
                   winningBidCents = DollarsToCents exact_runtime (MaxBid (tied_bidders ! 0)) \<rparr>
   \<and> DollarsToCents exact_runtime (MaxBid (tied_bidders ! 0)) = 15000"
proof -
  define A B where "A = tied_bidders ! 0" and "B = tied_bidders ! 1"
  have l: "tied_bidders = [A, B]" unfolding A_def B_def by code_simp
  have h2: "ID A \<noteq> ID B" unfolding A_def B_def by code_simp
  have h3: "StartingBid A = StartingBid B" unfolding A_def B_def by code_simp
  have h4: "MaxBid A = MaxBid B" unfolding A_def B_def by code_simp
  have h5: "AutoIncrement A = AutoIncrement B" unfolding A_def B_def by code_simp
  have h6: "Before (EntryTime A) (EntryTime B)" unfolding A_def B_def by code_simp
  have h7: "valid_input exact_runtime A" unfolding A_def by code_simp
  have v: "DollarsToCents exact_runtime (MaxBid A) = 15000" unfolding A_def by code_simp
  note tie = identical_bidders_tie [OF exact_runtime_contract h2 h3 h4 h5 h6 h7, folded l]
  show ?thesis
    using tie v unfolding A_def B_def by simp
qed

text \<open>
  Claim C5 as stated has the winner pay the starting bid. Alice and Bob above tie at
  10000 cents without a round, and Alice pays 15000: the payment is computed from
  Bob's maximum, not from the bids.
\<close>

theorem tie_winner_pays_maximum:
  "StartingBid (tied_bidders ! 0) = StartingBid (tied_bidders ! 1)
   \<and> MaxBid (tied_bidders ! 0) = MaxBid (tied_bidders ! 1)
   \<and> AutoIncrement (tied_bidders ! 0) = AutoIncrement (tied_bidders ! 1)
   \<and> Before (EntryTime (tied_bidders ! 0)) (EntryTime (tied_bidders ! 1))
   \<and> \<not> isl (ProcessBids exact_runtime NewBiddingEngine tied_bidders)
   \<and> Winner (projr (ProcessBids exact_runtime NewBiddingEngine tied_bidders)) = Some 0
   \<and> BiddingRounds (projr (ProcessBids exact_runtime NewBiddingEngine tied_bidders)) = 0
   \<and> winningBidCents (projr (ProcessBids exact_runtime NewBiddingEngine tied_bidders)) = 15000
   \<and> startingBidCents
        (AllBidders (projr (ProcessBids exact_runtime NewBiddingEngine tied_bidders)) ! 0) = 10000"
  by code_simp

section \<open>The engine on the store computes the same result\<close>

lemma not_losing_iff:
  "(sint hi \<le> sint (GetCurrentBidCents b) \<or> \<not> CanIncrement b) = (\<not> losing hi b)"
  by (auto simp add: losing_def GetCurrentBidCents_def)

lemma IncrementBids_loop_st_eq:
  "p < length h \<Longrightarrow> i \<le> length (h ! p)
   \<Longrightarrow> IncrementBids_loop_st rt hi p i a h
       = (h[p := take i (h ! p) @ map (pass_step rt hi) (drop i (h ! p))],
          Inr (a \<or> (\<exists>b\<in>set (drop i (h ! p)). losing hi b)))"
proof (induction rt hi p i a h rule: IncrementBids_loop_st.induct)
  case (1 rt hi p i a h)
  let ?xs = "h ! p"
  show ?case
  proof (cases "i < length ?xs")
    case False
    then have "IncrementBids_loop_st rt hi p i a h = (h, Inr a)"
      by (simp add: IncrementBids_loop_st.simps [of rt hi p i a h])
    moreover have "i = length ?xs" using False "1.prems" by simp
    ultimately show ?thesis by simp
  next
    case True
    have dr: "drop i ?xs = ?xs ! i # drop (Suc i) ?xs"
      using True by (simp add: Cons_nth_drop_Suc)
    have tk: "take (Suc i) ?xs = take i ?xs @ [?xs ! i]"
      using True by (simp add: take_Suc_conv_app_nth)
    show ?thesis
    proof (cases "losing hi (?xs ! i)")
      case False
      then have skip: "sint hi \<le> sint (GetCurrentBidCents (?xs ! i)) \<or> \<not> CanIncrement (?xs ! i)"
        by (simp add: not_losing_iff)
      have "IncrementBids_loop_st rt hi p i a h = IncrementBids_loop_st rt hi p (i + 1) a h"
        using True skip by (simp add: IncrementBids_loop_st.simps [of rt hi p i a h])
      also have "\<dots> = (h[p := take (i + 1) ?xs @ map (pass_step rt hi) (drop (i + 1) ?xs)],
          Inr (a \<or> (\<exists>b\<in>set (drop (i + 1) ?xs). losing hi b)))"
        using "1.IH"(1) [OF True skip] "1.prems" True by simp
      finally show ?thesis
        using False pass_step_def [of rt hi "?xs ! i"] by (simp add: dr tk)
    next
      case los: True
      then have noskip: "\<not> (sint hi \<le> sint (GetCurrentBidCents (?xs ! i)) \<or> \<not> CanIncrement (?xs ! i))"
        by (simp add: not_losing_iff)
      have inc: "fst (Increment rt (?xs ! i))"
        using los by (simp add: Increment_fst losing_def)
      define h' where "h' = h[p := ?xs[i := snd (Increment rt (?xs ! i))]]"
      have h'p: "h' ! p = ?xs[i := snd (Increment rt (?xs ! i))]"
        using "1.prems" by (simp add: h'_def)
      have "IncrementBids_loop_st rt hi p i a h = IncrementBids_loop_st rt hi p (i + 1) True h'"
        using True noskip inc
        by (simp add: IncrementBids_loop_st.simps [of rt hi p i a h] h'_def)
      also have "\<dots> = (h'[p := take (i + 1) (h' ! p) @ map (pass_step rt hi) (drop (i + 1) (h' ! p))],
          Inr (True \<or> (\<exists>b\<in>set (drop (i + 1) (h' ! p)). losing hi b)))"
        using "1.IH"(2) [OF True noskip inc] "1.prems" True
        by (simp add: h'_def)
      finally have run: "IncrementBids_loop_st rt hi p i a h
          = (h'[p := take (i + 1) (h' ! p) @ map (pass_step rt hi) (drop (i + 1) (h' ! p))],
             Inr True)"
        by simp
      have t: "take (Suc i) (h' ! p) = take i ?xs @ [pass_step rt hi (?xs ! i)]"
        using True los by (simp add: h'p take_Suc_conv_app_nth pass_step_def)
      have d: "drop (Suc i) (h' ! p) = drop (Suc i) ?xs"
        by (simp add: h'p)
      have "h'[p := ys] = h[p := ys]" for ys
        by (simp add: h'_def)
      then show ?thesis
        using los by (simp add: run t d dr)
    qed
  qed
qed

lemma IncrementBids_st_eq:
  assumes "p < length h"
  shows "IncrementBids_st rt p h =
           (case IncrementBids rt (h ! p) of
              Inl e \<Rightarrow> (h, Inl e)
            | Inr (a, bs') \<Rightarrow> (h[p := bs'], Inr a))"
proof (cases "length (h ! p) \<le> 1")
  case True
  then show ?thesis by (simp add: IncrementBids_st_def IncrementBids_def)
next
  case False
  then show ?thesis
    using assms
    by (simp add: IncrementBids_st_def IncrementBids_def IncrementBids_loop_st_eq
        IncrementBids_loop_eq split: sum.splits)
qed


lemma round_loop_st_eq:
  "p < length h
   \<Longrightarrow> snd (round_loop_st rt be p r h)
         = (case round_loop rt be r (h ! p) of Inl e \<Rightarrow> Inl e | Inr res \<Rightarrow> Inr (fst res))
       \<and> (\<forall>r' ws. round_loop rt be r (h ! p) = Inr (r', ws)
             \<longrightarrow> fst (round_loop_st rt be p r h) = h[p := ws])"
proof (induction rt be p r h rule: round_loop_st.induct)
  case (1 rt be p r h)
  note st = round_loop_st.simps [of rt be p r h]
  note vl = round_loop.simps [of rt be r "h ! p"]
  note inc = IncrementBids_st_eq [OF "1.prems", of rt]
  show ?case
  proof (cases "r < maxRounds be")
    case False
    then show ?thesis by (simp add: st vl)
  next
    case True
    show ?thesis
    proof (cases "IncrementBids rt (h ! p)")
      case (Inl e)
      then show ?thesis using True by (simp add: st vl inc)
    next
      case (Inr res)
      obtain a bs' where res: "res = (a, bs')" by (cases res)
      show ?thesis
      proof (cases a)
        case False
        then show ?thesis using True Inr res by (simp add: st vl inc)
      next
        case a: True
        have s1: "snd (IncrementBids_st rt p h) = Inr True"
          and f1: "fst (IncrementBids_st rt p h) = h[p := bs']"
          using Inr res a by (simp_all add: inc)
        have "p < length (h[p := bs'])" using "1.prems" by simp
        from "1.IH" [OF True s1 _ this [folded f1]]
        have "snd (round_loop_st rt be p (r + 1) (h[p := bs']))
                = (case round_loop rt be (r + 1) bs' of Inl e \<Rightarrow> Inl e | Inr res \<Rightarrow> Inr (fst res))
              \<and> (\<forall>r' ws. round_loop rt be (r + 1) bs' = Inr (r', ws)
                    \<longrightarrow> fst (round_loop_st rt be p (r + 1) (h[p := bs'])) = h[p := ws])"
          using "1.prems" by (simp add: f1)
        then show ?thesis
          using True Inr res a by (simp add: st vl s1 f1)
      qed
    qed
  qed
qed


text \<open>
  The engine on the store computes what \<open>ProcessBids\<close> computes on the contents of the
  caller's slice.
\<close>

lemma ProcessBids_st_refines:
  assumes "bidders < length h"
  shows "(case snd (ProcessBids_st rt be bidders h) of
            Inl e \<Rightarrow> Inl e
          | Inr r \<Rightarrow> Inr (deref (fst (ProcessBids_st rt be bidders h)) r))
         = ProcessBids rt be (h ! bidders)"
proof (cases "length (h ! bidders) = 0")
  case True
  then show ?thesis
    using assms
    by (simp add: ProcessBids_st_def ProcessBids_def NewBidResult_st_def NewBidResult_def
        deref_def)
next
  case False
  define w where "w = length h"
  define ws0 where "ws0 = sort_Slice rt entry_less (map (reinitialize rt) (h ! bidders))"
  define h3 where "h3 = (h @ [h ! bidders])[length h := ws0]"
  have w: "w < length h3" "h3 ! w = ws0" by (simp_all add: w_def h3_def)
  have st_eq: "ProcessBids_st rt be bidders h =
     (case round_loop_st rt be w 0 h3 of
        (h', Inl e) \<Rightarrow> (h', Inl e)
      | (h', Inr rounds) \<Rightarrow>
          if maxRounds be \<le> rounds
          then (h', Inl (TimeoutError ''bidding process exceeded maximum rounds''))
          else (case findWinner (h' ! w) of
                  Inl err \<Rightarrow> (h', Inl (ProcessingError ''failed to determine winner'' err))
                | Inr None \<Rightarrow>
                    (case NewBidResult_st rt None 0 (int (length (h ! bidders))) rounds w h' of
                       (h'', r) \<Rightarrow> (h'', Inr r))
                | Inr (Some winner) \<Rightarrow>
                    (case CalculateMinimumWinningBidCents (h' ! w) (Some (h' ! w ! winner)) of
                       Inl err \<Rightarrow>
                         (h', Inl (ProcessingError ''failed to calculate minimum winning bid'' err))
                     | Inr cents \<Rightarrow>
                         (case NewBidResultFromCents_st rt (Some (w, winner))
                                 cents (int (length (h ! bidders))) rounds w h' of
                            (h'', r) \<Rightarrow> (h'', Inr r)))))"
    unfolding ProcessBids_st_def Let_def w_def h3_def ws0_def using False by simp
  have val_eq: "ProcessBids rt be (h ! bidders) =
     (case round_loop rt be 0 ws0 of
        Inl e \<Rightarrow> Inl e
      | Inr (rounds, ws) \<Rightarrow>
          if maxRounds be \<le> rounds
          then Inl (TimeoutError ''bidding process exceeded maximum rounds'')
          else (case findWinner ws of
                  Inl err \<Rightarrow> Inl (ProcessingError ''failed to determine winner'' err)
                | Inr None \<Rightarrow>
                    Inr (NewBidResult rt None 0 (int (length (h ! bidders))) rounds ws)
                | Inr (Some winner) \<Rightarrow>
                    (case CalculateMinimumWinningBidCents ws (Some (ws ! winner)) of
                       Inl err \<Rightarrow>
                         Inl (ProcessingError ''failed to calculate minimum winning bid'' err)
                     | Inr cents \<Rightarrow>
                         Inr (NewBidResultFromCents rt (Some winner) cents
                                (int (length (h ! bidders))) rounds ws))))"
    unfolding ProcessBids_def Let_def ws0_def using False by simp
  obtain h4 res where rl: "round_loop_st rt be w 0 h3 = (h4, res)"
    by (cases "round_loop_st rt be w 0 h3") auto
  note link = round_loop_st_eq [OF w(1), of rt be 0, unfolded w(2) rl, simplified]
  show ?thesis
  proof (cases "round_loop rt be 0 ws0")
    case (Inl e)
    then have "res = Inl e" using link by simp
    then show ?thesis by (simp add: st_eq val_eq rl Inl)
  next
    case (Inr p)
    obtain rounds ws where p: "p = (rounds, ws)" by (cases p)
    have res: "res = Inr rounds" and h4: "h4 = h3[w := ws]"
      using link Inr p by simp_all
    have h4w: "h4 ! w = ws" "h4[w := ys] ! w = ys" for ys
      using w(1) by (simp_all add: h4)
    show ?thesis
      by (simp add: st_eq val_eq rl Inr p res h4w NewBidResult_st_def NewBidResult_def
          NewBidResultFromCents_st_def NewBidResultFromCents_def deref_def
          split: sum.splits option.splits)
  qed
qed

section \<open>The caller's slice\<close>

lemma IncrementBids_loop_st_frame:
  "length (fst (IncrementBids_loop_st rt hi p i a h)) = length h
   \<and> (\<forall>q. q \<noteq> p \<longrightarrow> fst (IncrementBids_loop_st rt hi p i a h) ! q = h ! q)"
proof (induction rt hi p i a h rule: IncrementBids_loop_st.induct)
  case (1 rt hi p i a h)
  show ?case
  proof (cases "i < length (h ! p)")
    case False
    then show ?thesis by (simp add: IncrementBids_loop_st.simps [of rt hi p i a h])
  next
    case True
    show ?thesis
    proof (cases "sint hi \<le> sint (GetCurrentBidCents (h ! p ! i)) \<or> \<not> CanIncrement (h ! p ! i)")
      case skip: True
      have "IncrementBids_loop_st rt hi p i a h = IncrementBids_loop_st rt hi p (i + 1) a h"
        using True skip by (simp add: IncrementBids_loop_st.simps [of rt hi p i a h])
      then show ?thesis using "1.IH"(1) [OF True skip] by simp
    next
      case noskip: False
      show ?thesis
      proof (cases "fst (Increment rt (h ! p ! i))")
        case inc: True
        have "IncrementBids_loop_st rt hi p i a h
                = IncrementBids_loop_st rt hi p (i + 1) True
                    (h[p := (h ! p)[i := snd (Increment rt (h ! p ! i))]])"
          using True noskip inc by (simp add: IncrementBids_loop_st.simps [of rt hi p i a h])
        then show ?thesis using "1.IH"(2) [OF True noskip inc] by simp
      next
        case False
        have "IncrementBids_loop_st rt hi p i a h
                = (h[p := (h ! p)[i := snd (Increment rt (h ! p ! i))]],
                   Inl (SystemError ''bidder increment failed despite CanIncrement() returning true''))"
          using True noskip False by (simp add: IncrementBids_loop_st.simps [of rt hi p i a h])
        then show ?thesis by simp
      qed
    qed
  qed
qed

lemma IncrementBids_st_frame:
  "length (fst (IncrementBids_st rt p h)) = length h
   \<and> (\<forall>q. q \<noteq> p \<longrightarrow> fst (IncrementBids_st rt p h) ! q = h ! q)"
  using IncrementBids_loop_st_frame [of rt _ p 0 False h]
  by (simp add: IncrementBids_st_def split: sum.splits)

lemma round_loop_st_frame:
  "length (fst (round_loop_st rt be p r h)) = length h
   \<and> (\<forall>q. q \<noteq> p \<longrightarrow> fst (round_loop_st rt be p r h) ! q = h ! q)"
proof (induction rt be p r h rule: round_loop_st.induct)
  case (1 rt be p r h)
  define h1 where "h1 = fst (IncrementBids_st rt p h)"
  have fr1: "length h1 = length h" "\<forall>q. q \<noteq> p \<longrightarrow> h1 ! q = h ! q"
    using IncrementBids_st_frame [of rt p h] by (simp_all add: h1_def)
  show ?case
  proof (cases "r < maxRounds be")
    case False
    then show ?thesis by (simp add: round_loop_st.simps [of rt be p r h])
  next
    case True
    show ?thesis
    proof (cases "snd (IncrementBids_st rt p h)")
      case (Inl err)
      then have "round_loop_st rt be p r h = (h1, Inl (ProcessingError ''failed to increment bids'' err))"
        using True by (simp add: round_loop_st.simps [of rt be p r h] h1_def)
      then show ?thesis using fr1 by simp
    next
      case (Inr inc)
      show ?thesis
      proof (cases inc)
        case False
        then have "round_loop_st rt be p r h = (h1, Inr r)"
          using True Inr by (simp add: round_loop_st.simps [of rt be p r h] h1_def)
        then show ?thesis using fr1 by simp
      next
        case inc: True
        then have "round_loop_st rt be p r h = round_loop_st rt be p (r + 1) h1"
          using True Inr by (simp add: round_loop_st.simps [of rt be p r h] h1_def)
        then show ?thesis
          using "1.IH" [OF True Inr] inc fr1 by (simp add: h1_def)
      qed
    qed
  qed
qed


text \<open>
  Claim C10. \<open>ProcessBids\<close> does not modify the caller's slice: after the call the
  array behind the argument holds the bidders it held before, field by field, and so
  does every other array that existed before the call. The engine writes to the copy
  it appends to the store; on an empty slice it writes nothing.
\<close>

theorem ProcessBids_keeps_callers_slice:
  assumes "bidders < length h"
  shows "fst (ProcessBids_st rt be bidders h) ! bidders = h ! bidders
       \<and> (\<forall>q<length h. fst (ProcessBids_st rt be bidders h) ! q = h ! q)"
proof (cases "length (h ! bidders) = 0")
  case True
  then have "map (SyncFloatFields rt) (h ! bidders) = h ! bidders" by simp
  then have "h[bidders := map (SyncFloatFields rt) (h ! bidders)] = h"
    by (simp only: list_update_id)
  then show ?thesis
    using True by (simp add: ProcessBids_st_def NewBidResult_st_def)
next
  case False
  define w where "w = length h"
  define h3 where "h3 = (h @ [h ! bidders])
     [length h := sort_Slice rt entry_less (map (reinitialize rt) (h ! bidders))]"
  obtain h4 res where rl: "round_loop_st rt be w 0 h3 = (h4, res)"
    by (cases "round_loop_st rt be w 0 h3") auto
  have fr3: "\<forall>q<length h. h3 ! q = h ! q"
    by (simp add: h3_def nth_append)
  have "\<forall>q. q \<noteq> w \<longrightarrow> h4 ! q = h3 ! q"
    using round_loop_st_frame [of rt be w 0 h3] by (simp add: rl)
  then have fr4: "\<forall>q<length h. h4 ! q = h ! q"
    using fr3 by (simp add: w_def)
  then have fr5: "\<forall>q<length h. h4[w := xs] ! q = h ! q" for xs
    by (simp add: w_def)
  have "ProcessBids_st rt be bidders h =
     (case round_loop_st rt be w 0 h3 of
        (h', Inl e) \<Rightarrow> (h', Inl e)
      | (h', Inr rounds) \<Rightarrow>
          if maxRounds be \<le> rounds
          then (h', Inl (TimeoutError ''bidding process exceeded maximum rounds''))
          else (case findWinner (h' ! w) of
                  Inl err \<Rightarrow> (h', Inl (ProcessingError ''failed to determine winner'' err))
                | Inr None \<Rightarrow>
                    (case NewBidResult_st rt None 0 (int (length (h ! bidders))) rounds w h' of
                       (h'', r) \<Rightarrow> (h'', Inr r))
                | Inr (Some winner) \<Rightarrow>
                    (case CalculateMinimumWinningBidCents (h' ! w) (Some (h' ! w ! winner)) of
                       Inl err \<Rightarrow>
                         (h', Inl (ProcessingError ''failed to calculate minimum winning bid'' err))
                     | Inr cents \<Rightarrow>
                         (case NewBidResultFromCents_st rt (Some (w, winner))
                                 cents (int (length (h ! bidders))) rounds w h' of
                            (h'', r) \<Rightarrow> (h'', Inr r)))))"
    unfolding ProcessBids_st_def Let_def w_def h3_def using False by simp
  then have eq: "ProcessBids_st rt be bidders h =
     (case res of
        Inl e \<Rightarrow> (h4, Inl e)
      | Inr rounds \<Rightarrow>
          if maxRounds be \<le> rounds
          then (h4, Inl (TimeoutError ''bidding process exceeded maximum rounds''))
          else (case findWinner (h4 ! w) of
                  Inl err \<Rightarrow> (h4, Inl (ProcessingError ''failed to determine winner'' err))
                | Inr None \<Rightarrow>
                    (case NewBidResult_st rt None 0 (int (length (h ! bidders))) rounds w h4 of
                       (h'', r) \<Rightarrow> (h'', Inr r))
                | Inr (Some winner) \<Rightarrow>
                    (case CalculateMinimumWinningBidCents (h4 ! w) (Some (h4 ! w ! winner)) of
                       Inl err \<Rightarrow>
                         (h4, Inl (ProcessingError ''failed to calculate minimum winning bid'' err))
                     | Inr cents \<Rightarrow>
                         (case NewBidResultFromCents_st rt (Some (w, winner))
                                 cents (int (length (h ! bidders))) rounds w h4 of
                            (h'', r) \<Rightarrow> (h'', Inr r)))))"
    by (simp add: rl)
  have "\<forall>q<length h. fst (ProcessBids_st rt be bidders h) ! q = h ! q"
    unfolding eq using fr4 fr5
    by (simp add: NewBidResult_st_def NewBidResultFromCents_st_def
        split: sum.splits option.splits)
  then show ?thesis using assms by simp
qed

text \<open>
  The theorem on a store holding only the caller's array of Alice and Bob: the array
  is as before, and the working copy at address 1 carries the final bids.
\<close>

theorem ProcessBids_keeps_callers_slice_witness:
  "fst (ProcessBids_st exact_runtime NewBiddingEngine 0 [two_bidders]) ! 0 = two_bidders
   \<and> length (fst (ProcessBids_st exact_runtime NewBiddingEngine 0 [two_bidders])) = 2
   \<and> map currentBidCents (fst (ProcessBids_st exact_runtime NewBiddingEngine 0 [two_bidders]) ! 1)
        = [1200, 1300]"
proof -
  have h1: "(0::nat) < length [two_bidders]" by simp
  have h2: "length (fst (ProcessBids_st exact_runtime NewBiddingEngine 0 [two_bidders])) = 2"
    by code_simp
  have h3: "map currentBidCents (fst (ProcessBids_st exact_runtime NewBiddingEngine 0 [two_bidders]) ! 1)
        = [1200, 1300]"
    by code_simp
  show ?thesis
    using ProcessBids_keeps_callers_slice [OF h1, of exact_runtime NewBiddingEngine] h2 h3
    by simp
qed

section \<open>The order of bidders with equal entry times\<close>

lemma tie_reversing_runtime_contract: "sort_Slice_contract tie_reversing_runtime"
  by (simp add: sort_Slice_contract_def tie_reversing_runtime_def mset_insertion_sort
      sorted_insertion_sort)

text \<open>
  Claim C6 asks that bidders with equal entry times keep their input order in the
  sorted working set. \<open>ProcessBids\<close> sorts with \<open>sort.Slice\<close>, whose contract does
  not include stability, so the claim cannot be derived from the engine. On the
  thirteen bidders, with the sort of \<open>tie_reversing_runtime\<close>, which meets the
  contract, the twelve bidders of equal entry time come out in reverse order and the
  winner is \<open>b11\<close>, not the first of them in the input, \<open>b0\<close>.
\<close>

theorem contract_allows_reversed_ties:
  "sort_Slice_contract tie_reversing_runtime
   \<and> map EntryTime thirteen_bidders = [1, 1, 1, 1, 1, 1, 1, 1, 1, 1, 1, 1, 0]
   \<and> map ID thirteen_bidders = [''b0'', ''b1'', ''b2'', ''b3'', ''b4'', ''b5'', ''b6'', ''b7'', ''b8'', ''b9'', ''b10'', ''b11'', ''b12'']
   \<and> \<not> isl (ProcessBids tie_reversing_runtime NewBiddingEngine thirteen_bidders)
   \<and> map ID (AllBidders (projr (ProcessBids tie_reversing_runtime NewBiddingEngine thirteen_bidders)))
       = [''b12'', ''b11'', ''b10'', ''b9'', ''b8'', ''b7'', ''b6'', ''b5'', ''b4'', ''b3'', ''b2'', ''b1'', ''b0'']
   \<and> Winner (projr (ProcessBids tie_reversing_runtime NewBiddingEngine thirteen_bidders)) = Some 1"
proof -
  have "map EntryTime thirteen_bidders = [1, 1, 1, 1, 1, 1, 1, 1, 1, 1, 1, 1, 0]
   \<and> map ID thirteen_bidders = [''b0'', ''b1'', ''b2'', ''b3'', ''b4'', ''b5'', ''b6'', ''b7'', ''b8'', ''b9'', ''b10'', ''b11'', ''b12'']
   \<and> \<not> isl (ProcessBids tie_reversing_runtime NewBiddingEngine thirteen_bidders)
   \<and> map ID (AllBidders (projr (ProcessBids tie_reversing_runtime NewBiddingEngine thirteen_bidders)))
       = [''b12'', ''b11'', ''b10'', ''b9'', ''b8'', ''b7'', ''b6'', ''b5'', ''b4'', ''b3'', ''b2'', ''b1'', ''b0'']
   \<and> Winner (projr (ProcessBids tie_reversing_runtime NewBiddingEngine thirteen_bidders)) = Some 1"
    by code_simp
  then show ?thesis using tie_reversing_runtime_contract by simp
qed

text \<open>
  What the contract does give: the final bidder list is in ascending order of entry
  time and holds the bidders of the input.
\<close>

lemma ProcessBids_sorted_by_entry:
  assumes "sort_Slice_contract rt" and "ProcessBids rt be bidders = Inr r"
  shows "sorted (map EntryTime (AllBidders r))
       \<and> mset (map ID (AllBidders r)) = mset (map ID bidders)"
proof (cases "bidders = []")
  case True
  then show ?thesis using assms(2) by (auto simp add: ProcessBids_def NewBidResult_def)
next
  case False
  define ws0 where "ws0 = sort_Slice rt entry_less (map (reinitialize rt) bidders)"
  obtain ws where loop: "round_loop rt be 0 ws0 = Inr (BiddingRounds r, ws)"
    and all: "AllBidders r = map (SyncFloatFields rt) ws"
    using ProcessBids_Inr [OF assms(2) False] unfolding ws0_def by auto
  have fr: "list_all2 same_parameters ws0 ws" using round_loop_frame [OF loop] by simp
  have "map EntryTime ws = map EntryTime ws0"
    using fr by (induction rule: list_all2_induct) (simp_all add: same_parameters_def)
  moreover have "sorted_wrt (\<lambda>x y. \<not> entry_less y x) ws0"
    using assms(1) by (simp add: sort_Slice_contract_def ws0_def)
  then have "sorted (map EntryTime ws0)"
    by (simp add: sorted_map entry_less_def Before_def not_less)
  ultimately have srt: "sorted (map EntryTime ws)" by simp
  have ids: "map ID (map (reinitialize rt) bidders) = map ID bidders"
    by (simp add: reinitialize_fields)
  have "mset ws0 = mset (map (reinitialize rt) bidders)"
    unfolding ws0_def by (rule sort_Slice_mset [OF assms(1)])
  then have "mset (map ID ws0) = mset (map ID (map (reinitialize rt) bidders))"
    by (metis mset_map)
  then have "mset (map ID ws0) = mset (map ID bidders)"
    unfolding ids .
  moreover have "map ID ws = map ID ws0" using same_parameters_maps [OF fr] by simp
  ultimately have "mset (map ID ws) = mset (map ID bidders)" by simp
  then have msid: "mset (map ID ws) = mset (map ID bidders)" .
  have c1: "ID \<circ> SyncFloatFields rt = (ID :: 'a Bidder \<Rightarrow> string)"
    by (rule ext) (simp add: SyncFloatFields_cents)
  have c2: "EntryTime \<circ> SyncFloatFields rt = (EntryTime :: 'a Bidder \<Rightarrow> time)"
    by (rule ext) (simp add: SyncFloatFields_def)
  have "map ID (AllBidders r) = map ID ws" "map EntryTime (AllBidders r) = map EntryTime ws"
    unfolding all map_map c1 c2 by (rule refl)+
  then show ?thesis
    using srt msid by (simp only:)
qed

section \<open>The conversions on float64\<close>

text \<open>
  \<open>math.Round\<close> and the rounding of a quotient to an integer are within one half of
  their argument, and both are odd functions.
\<close>

lemma floor_half: "\<lfloor>1 / 2 :: rat\<rfloor> = 0"
  by (rule floor_unique) simp_all

lemma near_half:
  "of_int n \<le> z + 1 / 2 \<Longrightarrow> z + 1 / 2 < of_int n + 1 \<Longrightarrow> \<bar>of_int n - (z :: rat)\<bar> \<le> 1 / 2"
  by linarith

lemma near_half_neg:
  "of_int n \<le> - z + 1 / 2 \<Longrightarrow> - z + 1 / 2 < of_int n + 1
   \<Longrightarrow> \<bar>of_int (- n) - (z :: rat)\<bar> \<le> 1 / 2"
  unfolding abs_le_iff by simp

lemma math_Round_error: "\<bar>of_int (math_Round x) - x\<bar> \<le> 1 / 2"
proof (cases "x < 0")
  case True
  have "\<bar>of_int (- \<lfloor>- x + 1 / 2\<rfloor>) - x\<bar> \<le> 1 / 2"
    by (rule near_half_neg) linarith+
  then show ?thesis using True unfolding math_Round_def by simp
next
  case False
  have "\<bar>of_int \<lfloor>x + 1 / 2\<rfloor> - x\<bar> \<le> 1 / 2"
    by (rule near_half) linarith+
  then show ?thesis using False by (simp add: math_Round_def)
qed

lemma math_Round_minus: "math_Round (- x) = - math_Round x"
  unfolding math_Round_def by (auto simp add: floor_half)

lemma math_Round_small:
  assumes "\<bar>x\<bar> < 1 / 2"
  shows "math_Round x = 0"
proof (cases "x < 0")
  case True
  have "\<lfloor>- x + 1 / 2\<rfloor> = 0" by (rule floor_unique) (use assms True in simp_all)
  then show ?thesis using True by (simp add: math_Round_def)
next
  case False
  have "\<lfloor>x + 1 / 2\<rfloor> = 0" by (rule floor_unique) (use assms False in simp_all)
  then show ?thesis using False by (simp add: math_Round_def)
qed

lemma round_ties_even_error: "\<bar>of_int (round_ties_even y) - y\<bar> \<le> 1 / 2"
proof -
  define n where "n = \<lfloor>y\<rfloor>"
  have "of_int n \<le> y" "y < of_int n + 1" unfolding n_def by linarith+
  then show ?thesis unfolding round_ties_even_def Let_def n_def [symmetric]
    by (auto simp add: abs_le_iff)
qed

lemma round_ties_even_minus: "round_ties_even (- y) = - round_ties_even y"
proof (cases "y = of_int \<lfloor>y\<rfloor>")
  case True
  then obtain n where y: "y = of_int n" ..
  show ?thesis unfolding y round_ties_even_def Let_def
    by (simp flip: of_int_minus)
next
  case False
  then have lt: "of_int \<lfloor>y\<rfloor> < y" using of_int_floor_le [of y] by linarith
  have "y < of_int \<lfloor>y\<rfloor> + 1" by linarith
  with lt have fl: "\<lfloor>- y\<rfloor> = - \<lfloor>y\<rfloor> - 1"
    by (simp add: floor_eq_iff)
  show ?thesis unfolding round_ties_even_def Let_def fl using lt
    by (auto simp add: algebra_simps)
qed

text \<open>
  The binary exponent: \<open>2 powi exponent64 r \<le> \<bar>r\<bar> < 2 powi (exponent64 r + 1)\<close>.
\<close>

lemma ilog2_bounds:
  "1 \<le> n \<Longrightarrow> 0 \<le> ilog2 n \<and> 2 ^ nat (ilog2 n) \<le> n \<and> n < 2 * 2 ^ nat (ilog2 n)"
proof (induction n rule: ilog2.induct)
  case (1 n)
  show ?case
  proof (cases "n < 2")
    case True
    with "1.prems" have "n = 1" by simp
    then show ?thesis by (simp add: ilog2.simps [of 1])
  next
    case False
    then have "1 \<le> n div 2" by simp
    with "1.IH" False have ih: "0 \<le> ilog2 (n div 2)" "2 ^ nat (ilog2 (n div 2)) \<le> n div 2"
      "n div 2 < 2 * 2 ^ nat (ilog2 (n div 2))" by simp_all
    have eq: "ilog2 n = 1 + ilog2 (n div 2)" using False by (simp add: ilog2.simps [of n])
    have nat_eq: "nat (ilog2 n) = Suc (nat (ilog2 (n div 2)))" using ih(1) eq by simp
    show ?thesis unfolding nat_eq using ih eq by simp linarith
  qed
qed

lemma power_int_2_less_cancel:
  assumes "power_int (2 :: rat) m < power_int 2 n"
  shows "m < n"
proof (rule ccontr)
  assume "\<not> m < n"
  then have "n \<le> m" by simp
  then have "power_int (2 :: rat) n \<le> power_int 2 m" by (rule power_int_increasing) simp
  with assms show False by simp
qed

lemma exponent64_bounds:
  assumes "r \<noteq> 0"
  shows "power_int 2 (exponent64 r) \<le> \<bar>r\<bar> \<and> \<bar>r\<bar> < power_int 2 (exponent64 r + 1)"
proof (cases "1 \<le> \<bar>r\<bar>")
  case True
  define n where "n = \<lfloor>\<bar>r\<bar>\<rfloor>"
  define k where "k = nat (ilog2 n)"
  have n1: "1 \<le> n" unfolding n_def using True by simp
  have nr: "of_int n \<le> \<bar>r\<bar>" "\<bar>r\<bar> < of_int n + 1" unfolding n_def by linarith+
  from ilog2_bounds [OF n1] have b: "0 \<le> ilog2 n" "2 ^ k \<le> n" "n < 2 * 2 ^ k"
    by (simp_all add: k_def)
  have e: "exponent64 r = int k" using True b(1) by (simp add: exponent64_def n_def k_def)
  have "(of_int (2 ^ k) :: rat) \<le> of_int n" using b(2) by (simp only: of_int_le_iff)
  moreover have "(of_int (2 ^ k) :: rat) = 2 ^ k" by simp
  ultimately have lo: "(2 :: rat) ^ k \<le> \<bar>r\<bar>" using nr(1) by linarith
  have "n + 1 \<le> 2 * 2 ^ k" using b(3) by simp
  then have "(of_int (n + 1) :: rat) \<le> of_int (2 * 2 ^ k)" by (simp only: of_int_le_iff)
  moreover have "(of_int (2 * 2 ^ k) :: rat) = 2 * 2 ^ k" "(of_int (n + 1) :: rat) = of_int n + 1"
    by simp_all
  ultimately have hi: "\<bar>r\<bar> < 2 * (2 :: rat) ^ k" using nr(2) by linarith
  have "power_int (2 :: rat) (int k + 1) = 2 * 2 ^ k"
    by (simp add: power_int_add)
  then show ?thesis using lo hi by (simp add: e)
next
  case False
  define a where "a = 1 / \<bar>r\<bar>"
  define m where "m = \<lceil>a\<rceil>"
  define j where "j = nat (ilog2 (m - 1))"
  have rpos: "0 < \<bar>r\<bar>" using assms by simp
  have a1: "1 < a" unfolding a_def using False rpos by simp
  have ma: "a \<le> of_int m" "of_int m - 1 < a" unfolding m_def by linarith+
  have "1 < m" unfolding m_def using a1 by (simp add: less_ceiling_iff)
  then have m1: "1 \<le> m - 1" by simp
  from ilog2_bounds [OF m1] have b: "0 \<le> ilog2 (m - 1)" "2 ^ j \<le> m - 1" "m - 1 < 2 * 2 ^ j"
    by (simp_all add: j_def)
  have e: "exponent64 r = - 1 - int j"
    using False b(1) by (simp add: exponent64_def m_def a_def j_def)
  have "m \<le> 2 * 2 ^ j" using b(3) by simp
  then have "(of_int m :: rat) \<le> of_int (2 * 2 ^ j)" by (simp only: of_int_le_iff)
  moreover have "(of_int (2 * 2 ^ j) :: rat) = 2 * 2 ^ j" by simp
  ultimately have "a \<le> 2 * 2 ^ j" using ma(1) by linarith
  then have "1 \<le> 2 * 2 ^ j * \<bar>r\<bar>" unfolding a_def using rpos by (simp add: field_simps)
  then have lo: "1 / (2 * 2 ^ j) \<le> \<bar>r\<bar>" by (simp add: field_simps)
  have "(of_int (2 ^ j) :: rat) \<le> of_int (m - 1)" using b(2) by (simp only: of_int_le_iff)
  moreover have "(of_int (2 ^ j) :: rat) = 2 ^ j" "(of_int (m - 1) :: rat) = of_int m - 1"
    by simp_all
  ultimately have "2 ^ j < a" using ma(2) by linarith
  then have "2 ^ j * \<bar>r\<bar> < 1" unfolding a_def using rpos by (simp add: field_simps)
  then have hi: "\<bar>r\<bar> < 1 / 2 ^ j" by (simp add: field_simps)
  have p1: "power_int (2 :: rat) (- 1 - int j) = 1 / (2 * 2 ^ j)"
  proof -
    have "power_int (2 :: rat) (- 1 - int j) = power_int 2 (- (int (Suc j)))" by simp
    also have "\<dots> = 1 / 2 ^ Suc j" by (simp only: power_int_minus_divide power_int_of_nat)
    finally show ?thesis by simp
  qed
  have p2: "power_int (2 :: rat) (- 1 - int j + 1) = 1 / 2 ^ j"
  proof -
    have "power_int (2 :: rat) (- 1 - int j + 1) = power_int 2 (- (int j))" by simp
    also have "\<dots> = 1 / 2 ^ j" by (simp only: power_int_minus_divide power_int_of_nat)
    finally show ?thesis .
  qed
  show ?thesis unfolding e p1 p2 using lo hi by simp
qed

text \<open>
  The rounding error of \<open>float64\<close>: half a unit in the last place, which is at most
  \<open>\<bar>r\<bar> / 2 ^ 53\<close> on the normal range and \<open>2 powi - 1075\<close> below it.
\<close>

lemma float64_zero: "float64 0 = 0"
  by (simp add: float64_def)

lemma float64_minus: "float64 (- r) = - float64 r"
proof -
  have "exponent64 (- r) = exponent64 r" by (simp add: exponent64_def)
  then show ?thesis by (simp add: float64_def Let_def round_ties_even_minus)
qed

lemma float64_error_ulp:
  assumes "r \<noteq> 0"
  shows "\<bar>float64 r - r\<bar> \<le> power_int 2 (max (exponent64 r) (- 1022) - 52) / 2"
proof -
  define ulp :: rat where "ulp = power_int 2 (max (exponent64 r) (- 1022) - 52)"
  have pos: "0 < ulp" unfolding ulp_def by (rule zero_less_power_int) simp
  have f: "float64 r = of_int (round_ties_even (r / ulp)) * ulp"
    using assms by (simp add: float64_def Let_def ulp_def)
  have "float64 r - r = (of_int (round_ties_even (r / ulp)) - r / ulp) * ulp"
    using pos by (simp add: f field_simps)
  then have "\<bar>float64 r - r\<bar> = \<bar>of_int (round_ties_even (r / ulp)) - r / ulp\<bar> * ulp"
    using pos by (simp add: abs_mult)
  also have "\<dots> \<le> 1 / 2 * ulp"
    using round_ties_even_error [of "r / ulp"] pos by (intro mult_right_mono) simp_all
  finally show ?thesis by (simp add: ulp_def)
qed

lemma float64_relative_error:
  assumes "power_int 2 (- 1022) \<le> \<bar>r\<bar>"
  shows "\<bar>float64 r - r\<bar> \<le> \<bar>r\<bar> / 2 ^ 53"
proof -
  have "0 < power_int (2 :: rat) (- 1022)" by (rule zero_less_power_int) simp
  with assms have r: "r \<noteq> 0" by auto
  from exponent64_bounds [OF r]
  have b: "power_int 2 (exponent64 r) \<le> \<bar>r\<bar>" "\<bar>r\<bar> < power_int 2 (exponent64 r + 1)"
    by simp_all
  from assms b(2) have "power_int (2 :: rat) (- 1022) < power_int 2 (exponent64 r + 1)" by simp
  then have "- 1022 < exponent64 r + 1" by (rule power_int_2_less_cancel)
  then have mx: "max (exponent64 r) (- 1022) = exponent64 r" by simp
  have "power_int (2 :: rat) (exponent64 r - 52) = power_int 2 (exponent64 r) / power_int 2 52"
    by (rule power_int_diff) simp
  then have "power_int (2 :: rat) (exponent64 r - 52) / 2 = power_int 2 (exponent64 r) / 2 ^ 53"
    by simp
  also have "\<dots> \<le> \<bar>r\<bar> / 2 ^ 53" using b(1) by (simp add: divide_right_mono)
  finally show ?thesis using float64_error_ulp [OF r] unfolding mx by simp
qed

lemma float64_subnormal_error:
  assumes "\<bar>r\<bar> < power_int 2 (- 1022)"
  shows "\<bar>float64 r - r\<bar> \<le> power_int 2 (- 1075)"
proof (cases "r = 0")
  case True
  then show ?thesis by (simp add: float64_zero)
next
  case False
  from exponent64_bounds [OF False] assms
  have "power_int (2 :: rat) (exponent64 r) < power_int 2 (- 1022)" by simp
  then have "exponent64 r < - 1022" by (rule power_int_2_less_cancel)
  then have mx: "max (exponent64 r) (- 1022) = - 1022" by simp
  have "power_int (2 :: rat) (- 1022 - 52) / 2 = power_int 2 (- 1074) / power_int 2 1" by simp
  also have "\<dots> = power_int 2 (- 1074 - 1)" by (rule power_int_diff [symmetric]) simp
  finally have "power_int (2 :: rat) (- 1022 - 52) / 2 = power_int 2 (- 1075)" by simp
  then show ?thesis using float64_error_ulp [OF False] unfolding mx by simp
qed

text \<open>
  The two conversions.
\<close>

lemma tiny_powers:
  "power_int (2 :: rat) (- 1022) < 1 / 256" "power_int (2 :: rat) (- 1075) < 1 / 256"
proof -
  have "power_int (2 :: rat) (- 1022) < power_int 2 (- 8)"
    by (rule power_int_strict_increasing) simp_all
  moreover have "power_int (2 :: rat) (- 1075) < power_int 2 (- 8)"
    by (rule power_int_strict_increasing) simp_all
  moreover have "power_int (2 :: rat) (- 8) = 1 / 256"
    by (simp add: power_int_minus_divide)
  ultimately show "power_int (2 :: rat) (- 1022) < 1 / 256" "power_int (2 :: rat) (- 1075) < 1 / 256"
    by simp_all
qed

lemma float64_product_error:
  "\<bar>of_int (math_Round (float64 r)) - r\<bar> \<le> 1 / 2 + \<bar>r\<bar> / 2 ^ 53"
proof (cases "power_int 2 (- 1022) \<le> \<bar>r\<bar>")
  case True
  from float64_relative_error [OF True] math_Round_error [of "float64 r"]
  show ?thesis by linarith
next
  case False
  then have small: "\<bar>r\<bar> < power_int 2 (- 1022)" by simp
  from float64_subnormal_error [OF small] small tiny_powers
  have "\<bar>float64 r\<bar> < 1 / 2" by linarith
  then have "math_Round (float64 r) = 0" by (rule math_Round_small)
  moreover have "0 \<le> \<bar>r\<bar> / 2 ^ 53" by simp
  ultimately show ?thesis using small tiny_powers(1) by (simp; linarith)
qed

lemma sint_word_of_int64:
  assumes "- (2 ^ 63) \<le> c" and "c < 2 ^ 63"
  shows "sint (word_of_int c :: int64) = c"
  using assms by (simp add: sint_sbintrunc' signed_take_bit_int_eq_self)

lemma DollarsToCents_sint:
  assumes "\<bar>x * 100\<bar> \<le> 2 ^ 62"
  shows "sint (models_DollarsToCents x) = math_Round (float64 (x * 100))"
proof -
  define c where "c = math_Round (float64 (x * 100))"
  have "0 \<le> \<bar>x * 100\<bar>" by simp
  have "\<bar>x * 100\<bar> / 2 ^ 53 \<le> 2 ^ 62 / 2 ^ 53" using assms by (rule divide_right_mono) simp
  then have "\<bar>x * 100\<bar> / 2 ^ 53 \<le> 512" by simp
  with float64_product_error [of "x * 100"] assms
  have "\<bar>of_int c :: rat\<bar> \<le> 2 ^ 62 + 513" unfolding c_def by linarith
  then have "(of_int c :: rat) < of_int (2 ^ 63)" "(of_int (- (2 ^ 63)) :: rat) \<le> of_int c"
    by simp_all
  then have "c < 2 ^ 63" "- (2 ^ 63) \<le> c" by (simp_all only: of_int_less_iff of_int_le_iff)
  then show ?thesis unfolding models_DollarsToCents_def c_def [symmetric]
    by (intro sint_word_of_int64)
qed

lemma DollarsToCents_minus: "models_DollarsToCents (- x) = - models_DollarsToCents x"
  by (simp add: models_DollarsToCents_def float64_minus math_Round_minus)

lemma abs_triangle3: "\<bar>a + b + c\<bar> \<le> \<bar>a\<bar> + \<bar>b\<bar> + \<bar>c :: rat\<bar>"
  by linarith

lemma small_arith:
  fixes X :: rat
  assumes "X * 100 \<le> 1 / 2 + X * 100 / 2 ^ 53" "0 \<le> X"
  shows "X \<le> 1 / 200 + (X + 1) / 2 ^ 51"
  using assms by (simp add: field_simps)

lemma round_trip_arith:
  fixes A B D F C R X :: rat
  assumes "A \<le> F / 100 / 2 ^ 53" "B \<le> C / 2 ^ 53" "D \<le> 1 / 2 + R / 2 ^ 53"
    "F \<le> C + B" "C \<le> R + D" "R = X * 100" "0 \<le> X"
  shows "A + B / 100 + D / 100 \<le> 1 / 200 + (X + 1) / 2 ^ 51"
  using assms by (simp add: field_simps)

lemma CentsToDollars_error:
  assumes "\<bar>of_int c - x * 100\<bar> \<le> 1 / 2 + \<bar>x * 100\<bar> / 2 ^ 53"
  shows "\<bar>float64 (float64 (of_int c) / 100) - x\<bar> \<le> 1 / 200 + (\<bar>x\<bar> + 1) / 2 ^ 51"
proof (cases "c = 0")
  case True
  have "\<bar>x * 100\<bar> = \<bar>x\<bar> * 100" by (simp add: abs_mult)
  with assms True have "\<bar>x\<bar> * 100 \<le> 1 / 2 + \<bar>x\<bar> * 100 / 2 ^ 53" by simp
  moreover have "0 \<le> \<bar>x\<bar>" by simp
  ultimately have "\<bar>x\<bar> \<le> 1 / 200 + (\<bar>x\<bar> + 1) / 2 ^ 51" by (rule small_arith)
  then show ?thesis using True by (simp add: float64_zero)
next
  case False
  define cr :: rat where "cr = of_int c"
  define f where "f = float64 cr"
  define q where "q = float64 (f / 100)"
  have "1 \<le> \<bar>c\<bar>" using False by simp
  then have "(of_int 1 :: rat) \<le> of_int \<bar>c\<bar>" by (simp only: of_int_le_iff)
  then have c1: "1 \<le> \<bar>cr\<bar>" by (simp add: cr_def)
  have n1: "power_int 2 (- 1022) \<le> \<bar>cr\<bar>" using c1 tiny_powers(1) by linarith
  have B: "\<bar>f - cr\<bar> \<le> \<bar>cr\<bar> / 2 ^ 53" unfolding f_def by (rule float64_relative_error [OF n1])
  have "\<bar>cr\<bar> / 2 ^ 53 \<le> \<bar>cr\<bar> / 2" by (rule divide_left_mono) simp_all
  with B c1 have f1: "1 / 2 \<le> \<bar>f\<bar>" by linarith
  have "\<bar>f / 100\<bar> = \<bar>f\<bar> / 100" by simp
  with f1 tiny_powers(1) have n2: "power_int 2 (- 1022) \<le> \<bar>f / 100\<bar>" by linarith
  have A: "\<bar>q - f / 100\<bar> \<le> \<bar>f\<bar> / 100 / 2 ^ 53"
    using float64_relative_error [OF n2] by (simp add: q_def)
  have D: "\<bar>cr - x * 100\<bar> \<le> 1 / 2 + \<bar>x\<bar> * 100 / 2 ^ 53"
    using assms by (simp add: cr_def abs_mult)
  have F: "\<bar>f\<bar> \<le> \<bar>cr\<bar> + \<bar>f - cr\<bar>" by linarith
  have C: "\<bar>cr\<bar> \<le> \<bar>x\<bar> * 100 + \<bar>cr - x * 100\<bar>" by (simp add: abs_mult [symmetric]) 
  have "q - x = (q - f / 100) + (f - cr) / 100 + (cr - x * 100) / 100"
    by (simp add: field_simps)
  then have "\<bar>q - x\<bar> \<le> \<bar>q - f / 100\<bar> + \<bar>(f - cr) / 100\<bar> + \<bar>(cr - x * 100) / 100\<bar>"
    using abs_triangle3 [of "q - f / 100" "(f - cr) / 100" "(cr - x * 100) / 100"]
    by (simp only:)
  then have tri: "\<bar>q - x\<bar> \<le> \<bar>q - f / 100\<bar> + \<bar>f - cr\<bar> / 100 + \<bar>cr - x * 100\<bar> / 100"
    by simp
  have "\<bar>q - f / 100\<bar> + \<bar>f - cr\<bar> / 100 + \<bar>cr - x * 100\<bar> / 100
          \<le> 1 / 200 + (\<bar>x\<bar> + 1) / 2 ^ 51"
    by (rule round_trip_arith [OF A B D F C]) simp_all
  with tri show ?thesis unfolding q_def f_def cr_def by linarith
qed

text \<open>
  Claim C9, as amended. For every amount \<open>x\<close> with \<open>\<bar>100 x\<bar> \<le> 2 ^ 62\<close>,
  \<open>DollarsToCents x\<close> is the integer nearest, ties away from zero, to the \<open>float64\<close>
  product \<open>x * 100\<close>, that is to \<open>100 x\<close> rounded to 53 significant bits; it differs
  from \<open>100 x\<close> by at most \<open>1 / 2 + \<bar>100 x\<bar> / 2 ^ 53\<close>; the cents of \<open>- x\<close> are the
  negated cents of \<open>x\<close>; and \<open>CentsToDollars (DollarsToCents x)\<close> differs from \<open>x\<close> by at
  most \<open>0.005 + (\<bar>x\<bar> + 1) / 2 ^ 51\<close>.
\<close>

theorem DollarsToCents_rounds_float64_product:
  assumes "\<bar>x * 100\<bar> \<le> 2 ^ 62"
  shows "sint (models_DollarsToCents x) = math_Round (float64 (x * 100))
       \<and> \<bar>of_int (sint (models_DollarsToCents x)) - x * 100\<bar> \<le> 1 / 2 + \<bar>x * 100\<bar> / 2 ^ 53
       \<and> models_DollarsToCents (- x) = - models_DollarsToCents x
       \<and> \<bar>models_CentsToDollars (models_DollarsToCents x) - x\<bar>
            \<le> 1 / 200 + (\<bar>x\<bar> + 1) / 2 ^ 51"
proof -
  note s = DollarsToCents_sint [OF assms]
  have e: "\<bar>of_int (sint (models_DollarsToCents x)) - x * 100\<bar> \<le> 1 / 2 + \<bar>x * 100\<bar> / 2 ^ 53"
    unfolding s by (rule float64_product_error)
  have "\<bar>models_CentsToDollars (models_DollarsToCents x) - x\<bar>
            \<le> 1 / 200 + (\<bar>x\<bar> + 1) / 2 ^ 51"
    unfolding models_CentsToDollars_def by (rule CentsToDollars_error [OF e])
  with s e DollarsToCents_minus show ?thesis by simp
qed

lemma float64_runtime_contract: "sort_Slice_contract float64_runtime"
  using exact_runtime_contract by (simp add: sort_Slice_contract_def float64_runtime_def)

text \<open>
  The theorem at the \<open>float64\<close> value of 1.115, which converts to 112 cents.
\<close>

theorem DollarsToCents_rounds_float64_product_witness:
  "\<bar>dollars_1_115 * 100\<bar> \<le> 2 ^ 62
   \<and> sint (models_DollarsToCents dollars_1_115) = math_Round (float64 (dollars_1_115 * 100))
   \<and> sint (models_DollarsToCents dollars_1_115) = 112
   \<and> \<bar>of_int (sint (models_DollarsToCents dollars_1_115)) - dollars_1_115 * 100\<bar>
        \<le> 1 / 2 + \<bar>dollars_1_115 * 100\<bar> / 2 ^ 53
   \<and> models_DollarsToCents (- dollars_1_115) = - models_DollarsToCents dollars_1_115
   \<and> \<bar>models_CentsToDollars (models_DollarsToCents dollars_1_115) - dollars_1_115\<bar>
        \<le> 1 / 200 + (\<bar>dollars_1_115\<bar> + 1) / 2 ^ 51"
proof -
  have h: "\<bar>dollars_1_115 * 100\<bar> \<le> 2 ^ 62" by code_simp
  have v: "sint (models_DollarsToCents dollars_1_115) = 112" by code_simp
  show ?thesis
    using DollarsToCents_rounds_float64_product [OF h] h v by simp
qed

text \<open>
  Claim C9 as stated has the nearest integer to \<open>100 x\<close> and a round trip within 0.005.
  The \<open>float64\<close> value of 1.115 lies below 1.115, so \<open>100 x\<close> is below 111.5 and the
  nearest integer is 111; the \<open>float64\<close> product rounds up to 111.5 exactly, and
  \<open>DollarsToCents\<close> returns 112. Back in dollars this is the \<open>float64\<close> value of 1.12,
  more than 0.005 away from \<open>x\<close>.
\<close>

theorem DollarsToCents_not_nearest_to_exact_product:
  "dollars_1_115 = 5021513584518103 / 4503599627370496
   \<and> float64 dollars_1_115 = dollars_1_115
   \<and> float64 (dollars_1_115 * 100) = 223 / 2
   \<and> sint (models_DollarsToCents dollars_1_115) = 112
   \<and> spec_toMinorUnits dollars_1_115 = 111
   \<and> 1 / 200 < \<bar>models_CentsToDollars (models_DollarsToCents dollars_1_115) - dollars_1_115\<bar>"
  by code_simp

end
